theory Spec2Isabelle
  imports Main
begin

section \<open>The event registry of \<^verbatim>\<open>observable/core.py\<close>\<close>

subsection \<open>Values, callables and exceptions\<close>

text \<open>
  Argument values handed to handlers. \<open>PTuple\<close> is a Python tuple, so that a tuple passed
  as one argument can be told apart from its elements passed one by one.
\<close>

datatype pyval = PInt int | PStr string | PTuple "pyval list"

type_synonym args = "pyval list"
type_synonym kwargs = "(string \<times> pyval) list"

text \<open>
  Handlers are callables compared by identity. \<open>Func n\<close> is a plain \<^verbatim>\<open>def\<close> function and
  \<open>Coro n\<close> an \<^verbatim>\<open>async def\<close> function, \<open>n\<close> being the identity of the function object.
  \<open>OnceWrapper i event handlers\<close> is the closure \<^verbatim>\<open>_wrapper\<close> built by \<^verbatim>\<open>once\<close>: \<open>i\<close> is the
  identity of the closure object, \<open>event\<close> and \<open>handlers\<close> are the variables it captures.
\<close>

datatype handler =
    Func nat
  | Coro nat
  | OnceWrapper nat string "handler list"

text \<open>\<^verbatim>\<open>asyncio.iscoroutinefunction\<close>: \<^verbatim>\<open>_wrapper\<close> is a plain \<^verbatim>\<open>def\<close>.\<close>

fun iscoroutinefunction :: "handler \<Rightarrow> bool" where
  "iscoroutinefunction (Coro _) = True"
| "iscoroutinefunction (Func _) = False"
| "iscoroutinefunction (OnceWrapper _ _ _) = False"

datatype exn =
    EventNotFound string
  | HandlerNotFound string handler
  | SyntaxError string
  | IndexError
  | RuntimeError
  | TypeError
  | UserError nat

text \<open>What \<^verbatim>\<open>on\<close> and \<^verbatim>\<open>once\<close> return: the first handler, or a closure to be used as a decorator.\<close>

datatype ret = Registered handler | OnRegistrar string | OnceRegistrar string

subsection \<open>The registry \<^verbatim>\<open>self._events\<close> and its introspection\<close>

type_synonym registry = "string \<rightharpoonup> handler list"

definition init :: registry where
  "init = Map.empty"

text \<open>\<^verbatim>\<open>self._events.get(event, [])\<close>, copied.\<close>

definition get_handlers :: "registry \<Rightarrow> string \<Rightarrow> handler list" where
  "get_handlers ev event = (case ev event of None \<Rightarrow> [] | Some hs \<Rightarrow> hs)"

definition get_all_handlers :: "registry \<Rightarrow> registry" where
  "get_all_handlers ev = ev"

definition is_registered :: "registry \<Rightarrow> string \<Rightarrow> handler \<Rightarrow> bool" where
  "is_registered ev event h = (h \<in> set (case ev event of None \<Rightarrow> [] | Some hs \<Rightarrow> hs))"

subsection \<open>\<^verbatim>\<open>on\<close>\<close>

text \<open>
  \<^verbatim>\<open>_on_wrapper\<close>: indexing the \<^verbatim>\<open>defaultdict\<close> creates the key, \<^verbatim>\<open>extend\<close> appends, and
  \<^verbatim>\<open>handlers[0]\<close> raises \<^verbatim>\<open>IndexError\<close> on an empty tuple, after the key has been created.
\<close>

definition on_wrapper :: "string \<Rightarrow> handler list \<Rightarrow> registry \<Rightarrow> (exn + handler) \<times> registry" where
  "on_wrapper event hs ev =
     (let ev' = ev(event \<mapsto> get_handlers ev event @ hs)
      in (case hs of [] \<Rightarrow> Inl IndexError | h # _ \<Rightarrow> Inr h, ev'))"

definition on :: "string \<Rightarrow> handler list \<Rightarrow> registry \<Rightarrow> (exn + ret) \<times> registry" where
  "on event hs ev =
     (if hs \<noteq> [] then
        (case on_wrapper event hs ev of
           (Inl x, ev') \<Rightarrow> (Inl x, ev')
         | (Inr h, ev') \<Rightarrow> (Inr (Registered h), ev'))
      else (Inr (OnRegistrar event), ev))"

subsection \<open>\<^verbatim>\<open>off\<close>\<close>

text \<open>
  \<^verbatim>\<open>while callback in self._events[event]: self._events[event].remove(callback)\<close>;
  \<^verbatim>\<open>list.remove\<close> deletes the first occurrence.
\<close>

function remove_while :: "handler \<Rightarrow> handler list \<Rightarrow> handler list" where
  "remove_while cb xs = (if cb \<in> set xs then remove_while cb (remove1 cb xs) else xs)"
  by pat_completeness auto
termination
  by (relation "measure (\<lambda>(cb, xs). length xs)") (auto simp: length_remove1 dest!: length_pos_if_in_set)

declare remove_while.simps [simp del]

text \<open>The \<^verbatim>\<open>for callback in handlers\<close> loop of \<^verbatim>\<open>off\<close>; it runs only when the key is present.\<close>

fun off_loop :: "string \<Rightarrow> handler list \<Rightarrow> registry \<Rightarrow> (exn + unit) \<times> registry" where
  "off_loop event [] ev = (Inr (), ev)"
| "off_loop event (cb # cbs) ev =
     (if cb \<notin> set (get_handlers ev event) then (Inl (HandlerNotFound event cb), ev)
      else off_loop event cbs (ev(event \<mapsto> remove_while cb (get_handlers ev event))))"

text \<open>
  \<^verbatim>\<open>off(event=None, *handlers)\<close>. \<^verbatim>\<open>not event\<close> holds for \<^verbatim>\<open>None\<close> and for the empty string.
\<close>

definition off :: "string option \<Rightarrow> handler list \<Rightarrow> registry \<Rightarrow> (exn + unit) \<times> registry" where
  "off event hs ev =
     (case event of
        None \<Rightarrow> (Inr (), Map.empty)
      | Some e \<Rightarrow>
          if e = [] then (Inr (), Map.empty)
          else if ev e = None then (Inl (EventNotFound e), ev)
          else if hs = [] then (Inr (), ev(e := None))
          else off_loop e hs ev)"

subsection \<open>The world a handler runs in\<close>

text \<open>
  Every invocation of a callable made by the registry is recorded, in order, with the place
  it is made from: the plain call \<^verbatim>\<open>callback(*args, **kw)\<close> of \<^verbatim>\<open>trigger\<close> and
  \<^verbatim>\<open>trigger_async\<close> (\<open>Dispatch\<close>), \<^verbatim>\<open>await callback(*args, **kw)\<close> (\<open>Await\<close>), the call
  handed to \<^verbatim>\<open>run_in_executor\<close> (\<open>Executor\<close>) and \<^verbatim>\<open>handler(*args, **kw)\<close> inside the
  \<^verbatim>\<open>_wrapper\<close> closure \<open>w\<close> (\<open>ViaWrapper w\<close>). \<open>depth\<close> is the nesting depth of the code that
  makes the call: 0 for the client, 1 for code inside a handler the client's trigger
  dispatched, and so on. \<open>cargs\<close> and \<open>ckw\<close> are the positional and keyword arguments the
  callee receives.
\<close>

datatype site = Dispatch | Await | Executor | ViaWrapper handler

datatype invocation = Call (depth: nat) (site: site) (callee: handler) (cargs: args) (ckw: kwargs)

text \<open>
  \<open>events\<close> is \<^verbatim>\<open>self._events\<close>; \<open>fresh\<close> is the identity the next closure object gets;
  \<open>log\<close> is the record of invocations; \<open>loop_running\<close> tells whether the calling thread
  has a running asyncio event loop. \<open>world0\<close> is a new \<^verbatim>\<open>Observable\<close> in a thread without one.
\<close>

record world =
  events :: registry
  fresh :: nat
  log :: "invocation list"
  loop_running :: bool

definition world0 :: world where
  "world0 = \<lparr>events = init, fresh = 0, log = [], loop_running = False\<rparr>"

definition record_call :: "invocation \<Rightarrow> world \<Rightarrow> world" where
  "record_call c w = w\<lparr>log := log w @ [c]\<rparr>"

subsection \<open>\<^verbatim>\<open>once\<close>\<close>

text \<open>
  With handlers, \<^verbatim>\<open>once\<close> builds a new \<^verbatim>\<open>_wrapper\<close> closure and registers it through
  \<^verbatim>\<open>on\<close>, which returns it. Without, it returns a decorator; \<open>once_decorator\<close> is that
  decorator applied to a handler.
\<close>

definition once :: "string \<Rightarrow> handler list \<Rightarrow> world \<Rightarrow> (exn + ret) \<times> world" where
  "once event hs w =
     (if hs \<noteq> [] then
        (let wrapper = OnceWrapper (fresh w) event hs;
             w1 = w\<lparr>fresh := Suc (fresh w)\<rparr>
         in case on event [wrapper] (events w1) of (r, ev') \<Rightarrow> (r, w1\<lparr>events := ev'\<rparr>))
      else (Inr (OnceRegistrar event), w))"

definition once_decorator :: "string \<Rightarrow> handler \<Rightarrow> world \<Rightarrow> (exn + ret) \<times> world" where
  "once_decorator event x w =
     (let wrapper = OnceWrapper (fresh w) event [x];
          w1 = w\<lparr>fresh := Suc (fresh w)\<rparr>
      in case on event [wrapper] (events w1) of (r, ev') \<Rightarrow> (r, w1\<lparr>events := ev'\<rparr>))"

subsection \<open>Handler bodies\<close>

text \<open>
  What a handler does when it runs is given by an environment of bodies. A body is a
  sequence of calls on the registry it closes over, so that handlers can register,
  unregister and trigger while a trigger is dispatching them. \<open>DoRaise\<close> raises an
  exception of the handler's own; \<open>ReturnUnlessRegistered e h\<close> is
  \<^verbatim>\<open>if not obs.is_registered(e, h): return\<close>. The client's own calls are such a sequence too.
\<close>

datatype action =
    DoOn string "handler list"
  | DoOff "string option" "handler list"
  | DoOnce string "handler list"
  | DoTrigger string args kwargs
  | DoRaise nat
  | ReturnUnlessRegistered string handler

type_synonym env = "handler \<Rightarrow> action list"

text \<open>
  A run that exhausts its call depth gives \<open>None\<close>; otherwise it gives the exception raised
  or the value returned, with the world as it then is (mutations made before an exception
  stay).
\<close>

type_synonym 'a outcome = "((exn + 'a) \<times> world) option"

text \<open>
  An invoker calls a callable: at code depth \<open>d\<close>, awaited or not, with the arguments.
\<close>

type_synonym invoker = "nat \<Rightarrow> bool \<Rightarrow> handler \<Rightarrow> args \<Rightarrow> kwargs \<Rightarrow> world \<Rightarrow> unit outcome"

subsection \<open>\<^verbatim>\<open>trigger\<close> and \<^verbatim>\<open>trigger_async\<close>\<close>

text \<open>
  The \<^verbatim>\<open>for callback in callbacks\<close> loop of \<^verbatim>\<open>trigger\<close>. For a coroutine function and no
  keyword arguments the code evaluates
  \<^verbatim>\<open>asyncio.create_task(asyncio.get_running_loop().run_in_executor(None, callback, args))\<close>:
  \<^verbatim>\<open>get_running_loop\<close> raises \<^verbatim>\<open>RuntimeError\<close> when no event loop is running;
  \<^verbatim>\<open>run_in_executor(None, callback, args)\<close> asks the executor to call \<^verbatim>\<open>callback(args)\<close>,
  one positional argument, the tuple, and returns a future; \<^verbatim>\<open>create_task\<close> takes coroutines
  only and raises \<^verbatim>\<open>TypeError\<close> for the future. The exception leaves the loop and the call.
\<close>

fun trigger_loop :: "invoker \<Rightarrow> nat \<Rightarrow> handler list \<Rightarrow> args \<Rightarrow> kwargs \<Rightarrow> world \<Rightarrow> unit outcome" where
  "trigger_loop invoke d [] a kw w = Some (Inr (), w)"
| "trigger_loop invoke d (cb # cbs) a kw w =
     (if iscoroutinefunction cb then
        (if length kw > 0 then
           Some (Inl (SyntaxError ''named args are not supported by asyncio in synchronous mode''), w)
         else if \<not> loop_running w then Some (Inl RuntimeError, w)
         else Some (Inl TypeError, record_call (Call d Executor cb [PTuple a] []) w))
      else
        (case invoke (Suc d) False cb a kw (record_call (Call d Dispatch cb a kw) w) of
           None \<Rightarrow> None
         | Some (Inl x, w') \<Rightarrow> Some (Inl x, w')
         | Some (Inr u, w') \<Rightarrow> trigger_loop invoke d cbs a kw w'))"

definition trigger_from :: "invoker \<Rightarrow> nat \<Rightarrow> string \<Rightarrow> args \<Rightarrow> kwargs \<Rightarrow> world \<Rightarrow> bool outcome" where
  "trigger_from invoke d event a kw w =
     (let callbacks = get_handlers (events w) event in
      if callbacks = [] then Some (Inr False, w)
      else (case trigger_loop invoke d callbacks a kw w of
              None \<Rightarrow> None
            | Some (Inl x, w') \<Rightarrow> Some (Inl x, w')
            | Some (Inr u, w') \<Rightarrow> Some (Inr True, w')))"

text \<open>The loop of \<^verbatim>\<open>trigger_async\<close>: a coroutine function is called and awaited in place.\<close>

fun trigger_async_loop :: "invoker \<Rightarrow> nat \<Rightarrow> handler list \<Rightarrow> args \<Rightarrow> kwargs \<Rightarrow> world \<Rightarrow> unit outcome" where
  "trigger_async_loop invoke d [] a kw w = Some (Inr (), w)"
| "trigger_async_loop invoke d (cb # cbs) a kw w =
     (case (if iscoroutinefunction cb
            then invoke (Suc d) True cb a kw (record_call (Call d Await cb a kw) w)
            else invoke (Suc d) False cb a kw (record_call (Call d Dispatch cb a kw) w)) of
        None \<Rightarrow> None
      | Some (Inl x, w') \<Rightarrow> Some (Inl x, w')
      | Some (Inr u, w') \<Rightarrow> trigger_async_loop invoke d cbs a kw w')"

definition trigger_async_from :: "invoker \<Rightarrow> nat \<Rightarrow> string \<Rightarrow> args \<Rightarrow> kwargs \<Rightarrow> world \<Rightarrow> bool outcome" where
  "trigger_async_from invoke d event a kw w =
     (let callbacks = get_handlers (events w) event in
      if callbacks = [] then Some (Inr False, w)
      else (case trigger_async_loop invoke d callbacks a kw w of
              None \<Rightarrow> None
            | Some (Inl x, w') \<Rightarrow> Some (Inl x, w')
            | Some (Inr u, w') \<Rightarrow> Some (Inr True, w')))"

subsection \<open>Running handlers\<close>

text \<open>A body, statement by statement; an exception ends it.\<close>

fun run :: "invoker \<Rightarrow> nat \<Rightarrow> action list \<Rightarrow> world \<Rightarrow> unit outcome" where
  "run invoke d [] w = Some (Inr (), w)"
| "run invoke d (DoOn e hs # acts) w =
     (case on e hs (events w) of
        (Inl x, ev') \<Rightarrow> Some (Inl x, w\<lparr>events := ev'\<rparr>)
      | (Inr r, ev') \<Rightarrow> run invoke d acts (w\<lparr>events := ev'\<rparr>))"
| "run invoke d (DoOff eo hs # acts) w =
     (case off eo hs (events w) of
        (Inl x, ev') \<Rightarrow> Some (Inl x, w\<lparr>events := ev'\<rparr>)
      | (Inr r, ev') \<Rightarrow> run invoke d acts (w\<lparr>events := ev'\<rparr>))"
| "run invoke d (DoOnce e hs # acts) w =
     (case once e hs w of
        (Inl x, w') \<Rightarrow> Some (Inl x, w')
      | (Inr r, w') \<Rightarrow> run invoke d acts w')"
| "run invoke d (DoTrigger e a kw # acts) w =
     (case trigger_from invoke d e a kw w of
        None \<Rightarrow> None
      | Some (Inl x, w') \<Rightarrow> Some (Inl x, w')
      | Some (Inr b, w') \<Rightarrow> run invoke d acts w')"
| "run invoke d (DoRaise x # acts) w = Some (Inl (UserError x), w)"
| "run invoke d (ReturnUnlessRegistered e h # acts) w =
     (if is_registered (events w) e h then run invoke d acts w else Some (Inr (), w))"

text \<open>The \<^verbatim>\<open>for handler in handlers\<close> loop of \<^verbatim>\<open>_wrapper\<close>: plain calls, never awaited.\<close>

fun wrapper_loop :: "invoker \<Rightarrow> nat \<Rightarrow> handler \<Rightarrow> handler list \<Rightarrow> args \<Rightarrow> kwargs \<Rightarrow> world \<Rightarrow> unit outcome" where
  "wrapper_loop invoke d wr [] a kw w = Some (Inr (), w)"
| "wrapper_loop invoke d wr (h # hs) a kw w =
     (case invoke (Suc d) False h a kw (record_call (Call d (ViaWrapper wr) h a kw) w) of
        None \<Rightarrow> None
      | Some (Inl x, w') \<Rightarrow> Some (Inl x, w')
      | Some (Inr u, w') \<Rightarrow> wrapper_loop invoke d wr hs a kw w')"

text \<open>
  Calling a callable, \<open>n\<close> nested calls deep at most. Calling a coroutine function only
  builds a coroutine object; its body runs when the object is awaited. \<^verbatim>\<open>_wrapper\<close> first
  runs \<^verbatim>\<open>self.off(event, _wrapper)\<close>, then calls the handlers it wraps.
\<close>

primrec call :: "nat \<Rightarrow> env \<Rightarrow> invoker" where
  "call 0 env = (\<lambda>d awaited h a kw w. None)"
| "call (Suc n) env = (\<lambda>d awaited h a kw w.
     case h of
       Func i \<Rightarrow> run (call n env) d (env h) w
     | Coro i \<Rightarrow> if awaited then run (call n env) d (env h) w else Some (Inr (), w)
     | OnceWrapper i event hs \<Rightarrow>
         (case off (Some event) [h] (events w) of
            (Inl x, ev') \<Rightarrow> Some (Inl x, w\<lparr>events := ev'\<rparr>)
          | (Inr u, ev') \<Rightarrow> wrapper_loop (call n env) d h hs a kw (w\<lparr>events := ev'\<rparr>)))"

text \<open>The two entry points as the client calls them, and a client's sequence of calls.\<close>

definition trigger :: "nat \<Rightarrow> env \<Rightarrow> string \<Rightarrow> args \<Rightarrow> kwargs \<Rightarrow> world \<Rightarrow> bool outcome" where
  "trigger n env event a kw w = trigger_from (call n env) 0 event a kw w"

definition trigger_async :: "nat \<Rightarrow> env \<Rightarrow> string \<Rightarrow> args \<Rightarrow> kwargs \<Rightarrow> world \<Rightarrow> bool outcome" where
  "trigger_async n env event a kw w = trigger_async_from (call n env) 0 event a kw w"

definition client :: "nat \<Rightarrow> env \<Rightarrow> action list \<Rightarrow> world \<Rightarrow> unit outcome" where
  "client n env acts w = run (call n env) 0 acts w"

subsection \<open>Predicates used in the statements\<close>


text \<open>
  The invocations recorded between two worlds, and those among them made by code at depth
  \<open>d\<close>: for a trigger called at depth \<open>d\<close> these are its own dispatches, the calls made
  inside the handlers it runs being deeper.
\<close>

definition new_calls :: "world \<Rightarrow> world \<Rightarrow> invocation list" where
  "new_calls w w' = drop (length (log w)) (log w')"

definition calls_at :: "nat \<Rightarrow> world \<Rightarrow> world \<Rightarrow> invocation list" where
  "calls_at d w w' = filter (\<lambda>c. depth c = d) (new_calls w w')"

text \<open>The record grows at its end only, by invocations made at depth \<open>d\<close> or deeper.\<close>

definition extends_from :: "nat \<Rightarrow> world \<Rightarrow> world \<Rightarrow> bool" where
  "extends_from d w w' =
     (take (length (log w)) (log w') = log w \<and> list_all (\<lambda>c. d \<le> depth c) (new_calls w w'))"

definition appends :: "invoker \<Rightarrow> bool" where
  "appends invoke =
     (\<forall>d aw h a kw w r w'. invoke d aw h a kw w = Some (r, w') \<longrightarrow> extends_from d w w')"

text \<open>What \<^verbatim>\<open>trigger\<close> and \<^verbatim>\<open>trigger_async\<close> record for a handler of the snapshot.\<close>

definition sync_entry :: "nat \<Rightarrow> args \<Rightarrow> kwargs \<Rightarrow> handler \<Rightarrow> invocation" where
  "sync_entry d a kw cb =
     (if iscoroutinefunction cb then Call d Executor cb [PTuple a] [] else Call d Dispatch cb a kw)"

definition async_entry :: "nat \<Rightarrow> args \<Rightarrow> kwargs \<Rightarrow> handler \<Rightarrow> invocation" where
  "async_entry d a kw cb = Call d (if iscoroutinefunction cb then Await else Dispatch) cb a kw"

text \<open>
  Handlers that are sure to return: plain and coroutine functions whose bodies only
  register handlers or return early.
\<close>

fun harmless :: "action \<Rightarrow> bool" where
  "harmless (DoOn e hs) = True"
| "harmless (DoOff eo hs) = False"
| "harmless (DoOnce e hs) = True"
| "harmless (DoTrigger e a kw) = False"
| "harmless (DoRaise x) = False"
| "harmless (ReturnUnlessRegistered e h) = True"

fun is_function :: "handler \<Rightarrow> bool" where
  "is_function (Func i) = True"
| "is_function (Coro i) = True"
| "is_function (OnceWrapper i e hs) = False"

definition simple_handlers :: "env \<Rightarrow> handler list \<Rightarrow> bool" where
  "simple_handlers env cbs = list_all (\<lambda>cb. is_function cb \<and> list_all harmless (env cb)) cbs"

subsection \<open>What a snapshot of plain handlers does to the registry\<close>






subsection \<open>Successive calls of a client\<close>

text \<open>
  A client makes one sequence of calls after another; an exception ends the sequence it is
  raised in, and the next one starts in the world as it then is.
\<close>

fun sessions :: "nat \<Rightarrow> env \<Rightarrow> action list list \<Rightarrow> world \<Rightarrow> world option" where
  "sessions n env [] w = Some w"
| "sessions n env (p # ps) w =
     (case client n env p w of None \<Rightarrow> None | Some (r, w1) \<Rightarrow> sessions n env ps w1)"

subsection \<open>What a \<^verbatim>\<open>once\<close> wrapper invokes\<close>

text \<open>
  The handlers invoked by the wrapper \<open>wr\<close> between two worlds, in order; and the bodies
  that never pass \<open>wr\<close> to \<^verbatim>\<open>on\<close>, that is, never register the wrapper a second time.
\<close>

definition via_wrapper :: "handler \<Rightarrow> world \<Rightarrow> world \<Rightarrow> handler list" where
  "via_wrapper wr w w' = map callee (filter (\<lambda>c. site c = ViaWrapper wr) (new_calls w w'))"

fun registers :: "handler \<Rightarrow> action \<Rightarrow> bool" where
  "registers wr (DoOn e hs) = (wr \<in> set hs)"
| "registers wr (DoOff eo hs) = False"
| "registers wr (DoOnce e hs) = False"
| "registers wr (DoTrigger e a kw) = False"
| "registers wr (DoRaise x) = False"
| "registers wr (ReturnUnlessRegistered e h) = False"

definition never_registers :: "handler \<Rightarrow> action list \<Rightarrow> bool" where
  "never_registers wr acts = list_all (\<lambda>act. \<not> registers wr act) acts"

text \<open>
  What any stretch of execution can do about the wrapper \<open>OnceWrapper i e hs\<close>: the wrapper
  invokes an initial part of \<open>hs\<close>, it invokes nothing unless it was registered for \<open>e\<close> at
  the start, and if it is registered for \<open>e\<close> at the end it was so at the start and has
  invoked nothing.
\<close>

definition once_step :: "nat \<Rightarrow> string \<Rightarrow> handler list \<Rightarrow> world \<Rightarrow> world \<Rightarrow> bool" where
  "once_step i e hs w w' =
     (fresh w \<le> fresh w' \<and> take (length (log w)) (log w') = log w
      \<and> (\<exists>k\<le>length hs. via_wrapper (OnceWrapper i e hs) w w' = take k hs)
      \<and> (is_registered (events w') e (OnceWrapper i e hs) \<longrightarrow>
            is_registered (events w) e (OnceWrapper i e hs) \<and> via_wrapper (OnceWrapper i e hs) w w' = [])
      \<and> (\<not> is_registered (events w) e (OnceWrapper i e hs) \<longrightarrow> via_wrapper (OnceWrapper i e hs) w w' = []))"

definition once_safe :: "nat \<Rightarrow> string \<Rightarrow> handler list \<Rightarrow> invoker \<Rightarrow> bool" where
  "once_safe i e hs invoke =
     (\<forall>d aw h a kw w r w'. i < fresh w \<longrightarrow> invoke d aw h a kw w = Some (r, w') \<longrightarrow> once_step i e hs w w')"

subsection \<open>Handlers and registries used as examples\<close>



text \<open>A coroutine function whose body registers a handler, between two other handlers.\<close>

definition env_mixed :: env where
  "env_mixed h = (if h = Coro 1 then [DoOn ''x'' [Func 9]] else [])"

definition w_mixed :: world where
  "w_mixed = world0\<lparr>events := Map.empty(''e'' \<mapsto> [Coro 1, Func 2, Coro 3]), loop_running := True\<rparr>"

text \<open>
  An ordinary handler that unregisters an event nobody registered, ahead of a coroutine
  function.
\<close>

definition env_raiser :: env where
  "env_raiser h = (if h = Func 0 then [DoOff (Some ''gone'') []] else [])"

definition w_raiser :: world where
  "w_raiser = world0\<lparr>events := Map.empty(''e'' \<mapsto> [Func 0, Coro 1])\<rparr>"

text \<open>
  \<open>Func 1\<close> triggers the empty event name again, the first time it runs: while \<open>Func 0\<close> is
  registered for \<open>flag\<close>, which it then unregisters. The client registers \<open>Func 0\<close> for
  \<open>flag\<close> and \<open>Func 1\<close> for the empty name, registers \<open>Func 2\<close> for the empty name with
  \<^verbatim>\<open>once\<close> and triggers the empty name. \<open>w_retrigger\<close> is the world this ends in.
\<close>

definition env_retrigger :: env where
  "env_retrigger h = (if h = Func 1
     then [ReturnUnlessRegistered ''flag'' (Func 0), DoOff (Some ''flag'') [], DoTrigger [] [] []]
     else [])"

definition prog_retrigger :: "action list" where
  "prog_retrigger = [DoOn ''flag'' [Func 0], DoOn [] [Func 1], DoOnce [] [Func 2], DoTrigger [] [] []]"

definition w_retrigger :: world where
  "w_retrigger = \<lparr>events = Map.empty, fresh = Suc 0,
     log = [Call 0 Dispatch (Func 1) [] [],
            Call (Suc 0) Dispatch (Func 1) [] [],
            Call (Suc 0) Dispatch (OnceWrapper 0 [] [Func 2]) [] [],
            Call (Suc (Suc 0)) (ViaWrapper (OnceWrapper 0 [] [Func 2])) (Func 2) [] [],
            Call 0 Dispatch (OnceWrapper 0 [] [Func 2]) [] [],
            Call (Suc 0) (ViaWrapper (OnceWrapper 0 [] [Func 2])) (Func 2) [] []],
     loop_running = False\<rparr>"

text \<open>\<open>Func 2\<close> triggers the event it handles from inside its own run.\<close>

definition env_reenter :: env where
  "env_reenter h = (if h = Func 2 then [DoTrigger ''e'' [] []] else [])"





section \<open>Properties of the registry operations\<close>

lemma remove_while_removeAll: "remove_while cb xs = removeAll cb xs"
proof (induction cb xs rule: remove_while.induct)
  case (1 cb xs)
  show ?case
  proof (cases "cb \<in> set xs")
    case True
    have "removeAll cb (remove1 cb xs) = removeAll cb xs"
      by (induction xs) auto
    with True 1 show ?thesis
      by (subst remove_while.simps) simp
  next
    case False
    then show ?thesis
      by (subst remove_while.simps) simp
  qed
qed

lemma off_loop_present:
  assumes "ev e = Some xs" "distinct pre" "set pre \<subseteq> set xs"
  shows "off_loop e (pre @ rest) ev = off_loop e rest (ev(e \<mapsto> filter (\<lambda>x. x \<notin> set pre) xs))"
  using assms
proof (induction pre arbitrary: ev xs)
  case Nil
  then show ?case by (simp add: fun_upd_idem)
next
  case (Cons p pre)
  let ?ev1 = "ev(e \<mapsto> removeAll p xs)"
  have p: "p \<in> set xs" and d: "distinct pre" and np: "p \<notin> set pre"
    and sub: "set pre \<subseteq> set (removeAll p xs)"
    using Cons.prems by auto
  have step: "off_loop e ((p # pre) @ rest) ev = off_loop e (pre @ rest) ?ev1"
    using p Cons.prems(1) by (simp add: get_handlers_def remove_while_removeAll)
  have flt: "filter (\<lambda>x. x \<notin> set pre) (removeAll p xs) = filter (\<lambda>x. x \<notin> set (p # pre)) xs"
    by (induction xs) auto
  have "off_loop e (pre @ rest) ?ev1
        = off_loop e rest (?ev1(e \<mapsto> filter (\<lambda>x. x \<notin> set pre) (removeAll p xs)))"
    by (rule Cons.IH) (use d sub in simp_all)
  also have "\<dots> = off_loop e rest (ev(e \<mapsto> filter (\<lambda>x. x \<notin> set (p # pre)) xs))"
    by (simp only: flt fun_upd_upd)
  finally show ?case
    by (simp only: step)
qed


subsection \<open>Empty sequences under a key\<close>




subsection \<open>Unregistering a whole event\<close>

text \<open>
  Claim C3, as stated: \<^verbatim>\<open>off(e)\<close> raises \<^verbatim>\<open>EventNotFound\<close> exactly when \<open>e\<close> has no
  registered handlers. It fails twice: a key emptied by \<^verbatim>\<open>off(e, h)\<close> has no handlers and
  \<^verbatim>\<open>off(e)\<close> returns normally; and the empty name has no handlers in the new registry and
  \<^verbatim>\<open>off("")\<close> returns normally.
\<close>

theorem off_event_emptied_key_counterexample:
  "get_handlers (snd (off (Some ''e'') [Func 0] (snd (on ''e'' [Func 0] init)))) ''e'' = []
   \<and> fst (off (Some ''e'') [] (snd (off (Some ''e'') [Func 0] (snd (on ''e'' [Func 0] init))))) = Inr ()
   \<and> get_handlers init [] = []
   \<and> fst (off (Some []) [] init) = Inr ()"
  by (simp add: off_def on_def on_wrapper_def init_def get_handlers_def
      remove_while_removeAll)

text \<open>
  Claim C3, amended: for every non-empty event name \<open>e\<close>, \<^verbatim>\<open>off(e)\<close> raises
  \<^verbatim>\<open>EventNotFound(e)\<close> exactly when \<open>e\<close> is not a key of the registry; then \<open>e\<close> has no
  handlers and the registry is unchanged. Otherwise it returns normally and removes the
  key \<open>e\<close> with all its handlers, and leaves the rest as it is.
\<close>

theorem off_event_only:
  assumes "e \<noteq> []"
  shows "(fst (off (Some e) [] ev) = Inl (EventNotFound e)) = (ev e = None)
       \<and> (ev e = None \<longrightarrow> get_handlers ev e = [] \<and> snd (off (Some e) [] ev) = ev)
       \<and> (ev e \<noteq> None \<longrightarrow> off (Some e) [] ev = (Inr (), ev(e := None))
              \<and> get_handlers (snd (off (Some e) [] ev)) e = []
              \<and> (\<forall>h. \<not> is_registered (snd (off (Some e) [] ev)) e h))"
  using assms by (auto simp: off_def get_handlers_def is_registered_def)

theorem off_event_only_witness:
  "''e'' \<noteq> []
   \<and> fst (off (Some ''e'') [] (Map.empty(''f'' \<mapsto> [Func 2]))) = Inl (EventNotFound ''e'')
   \<and> off (Some ''e'') [] (Map.empty(''f'' \<mapsto> [Func 2], ''e'' \<mapsto> [Func 1]))
       = (Inr (), (Map.empty(''f'' \<mapsto> [Func 2], ''e'' \<mapsto> [Func 1]))(''e'' := None))"
  using off_event_only [of "''e''" "Map.empty(''f'' \<mapsto> [Func 2])"]
    off_event_only [of "''e''" "Map.empty(''f'' \<mapsto> [Func 2], ''e'' \<mapsto> [Func 1])"]
  by simp

subsection \<open>Unregistering handlers\<close>

text \<open>
  Claim C7: \<^verbatim>\<open>off(e, h1, ..., hn)\<close> takes the handlers one at a time in the order given.
  When the handlers \<open>pre\<close> ahead of \<open>hk\<close> are all found and \<open>hk\<close> is not (it was never in the
  sequence, or an earlier removal took it), the call raises \<^verbatim>\<open>HandlerNotFound(e, hk)\<close> and
  the registry it leaves has every occurrence of the handlers of \<open>pre\<close> removed from \<open>e\<close>:
  nothing is rolled back.
\<close>

theorem off_partial_application:
  assumes "e \<noteq> []" "ev e = Some xs" "distinct pre" "set pre \<subseteq> set xs"
    and "hk \<notin> set xs \<or> hk \<in> set pre"
  shows "off (Some e) (pre @ hk # rest) ev
         = (Inl (HandlerNotFound e hk), ev(e \<mapsto> filter (\<lambda>x. x \<notin> set pre) xs))"
proof -
  have "off (Some e) (pre @ hk # rest) ev = off_loop e (pre @ hk # rest) ev"
    using assms(1,2) by (simp add: off_def)
  also have "\<dots> = off_loop e (hk # rest) (ev(e \<mapsto> filter (\<lambda>x. x \<notin> set pre) xs))"
    by (rule off_loop_present) (use assms in simp_all)
  also have "\<dots> = (Inl (HandlerNotFound e hk), ev(e \<mapsto> filter (\<lambda>x. x \<notin> set pre) xs))"
    using assms(5) by (auto simp: get_handlers_def)
  finally show ?thesis .
qed

theorem off_partial_application_witness:
  "off (Some ''e'') [Func 1, Func 2, Func 9, Func 3]
       (Map.empty(''e'' \<mapsto> [Func 1, Func 2, Func 3, Func 1]))
     = (Inl (HandlerNotFound ''e'' (Func 9)), Map.empty(''e'' \<mapsto> [Func 3]))"
  using off_partial_application [of "''e''" "Map.empty(''e'' \<mapsto> [Func 1, Func 2, Func 3, Func 1])"
      "[Func 1, Func 2, Func 3, Func 1]" "[Func 1, Func 2]" "Func 9" "[Func 3]"]
  by simp

text \<open>
  Claim C9: when \<open>h\<close> is in the sequence of \<open>e\<close>, however many times, \<^verbatim>\<open>off(e, h)\<close> returns
  normally and \<open>h\<close> is no longer registered for \<open>e\<close>; for a non-empty name the sequence of
  \<open>e\<close> is the old one without any occurrence of \<open>h\<close>.
\<close>

theorem off_handler_removes_every_occurrence:
  assumes "is_registered ev e h"
  shows "fst (off (Some e) [h] ev) = Inr ()
       \<and> \<not> is_registered (snd (off (Some e) [h] ev)) e h
       \<and> count_list (get_handlers (snd (off (Some e) [h] ev)) e) h = 0
       \<and> (e \<noteq> [] \<longrightarrow> snd (off (Some e) [h] ev) = ev(e \<mapsto> removeAll h (get_handlers ev e)))"
  using assms
  by (auto simp: off_def is_registered_def get_handlers_def remove_while_removeAll
      split: option.splits)

theorem off_handler_removes_every_occurrence_witness:
  "is_registered (Map.empty(''e'' \<mapsto> [Func 1, Func 2, Func 1])) ''e'' (Func 1)
   \<and> off (Some ''e'') [Func 1] (Map.empty(''e'' \<mapsto> [Func 1, Func 2, Func 1]))
       = (Inr (), Map.empty(''e'' \<mapsto> [Func 2]))
   \<and> \<not> is_registered (snd (off (Some ''e'') [Func 1] (Map.empty(''e'' \<mapsto> [Func 1, Func 2, Func 1]))))
         ''e'' (Func 1)"
proof -
  have r: "is_registered (Map.empty(''e'' \<mapsto> [Func 1, Func 2, Func 1])) ''e'' (Func 1)"
    by (simp add: is_registered_def)
  have e: "''e'' \<noteq> []" by simp
  from off_handler_removes_every_occurrence [OF r] e r show ?thesis
    by (auto simp: get_handlers_def is_registered_def prod_eq_iff)
qed

subsection \<open>The empty event name\<close>

text \<open>
  Claim C10: in every registry, \<^verbatim>\<open>off\<close> with the empty string as event name does what
  \<^verbatim>\<open>off\<close> with no event does: it returns normally, never with \<^verbatim>\<open>EventNotFound\<close>, and
  leaves the registry empty, no handler registered for any event.
\<close>

theorem off_empty_name_clears_all:
  "off (Some []) hs ev = off None hs ev
   \<and> off (Some []) hs ev = (Inr (), Map.empty)
   \<and> fst (off (Some []) hs ev) \<noteq> Inl (EventNotFound [])
   \<and> (\<forall>e h. \<not> is_registered (snd (off (Some []) hs ev)) e h)"
  by (simp add: off_def is_registered_def)

section \<open>Properties of dispatch\<close>

subsection \<open>The record of invocations\<close>

lemma fresh_record_call [simp]: "fresh (record_call c w) = fresh w"
  by (simp add: record_call_def)

lemma events_record_call [simp]: "events (record_call c w) = events w"
  by (simp add: record_call_def)

lemma trigger_loop_append:
  "trigger_loop invoke d (xs @ ys) a kw w =
     (case trigger_loop invoke d xs a kw w of
        None \<Rightarrow> None
      | Some (Inl x, w1) \<Rightarrow> Some (Inl x, w1)
      | Some (Inr u, w1) \<Rightarrow> trigger_loop invoke d ys a kw w1)"
  by (induction xs arbitrary: w) (auto split: option.splits sum.splits)

lemma trigger_loop_kw_coroutine:
  "kw \<noteq> [] \<Longrightarrow> cb \<in> set cbs \<Longrightarrow> iscoroutinefunction cb \<Longrightarrow>
     trigger_loop invoke d cbs a kw w \<noteq> Some (Inr u, w')"
  by (induction cbs arbitrary: w) (auto split: option.splits sum.splits)

lemma extends_fromI:
  "log w' = log w @ new \<Longrightarrow> list_all (\<lambda>c. d \<le> depth c) new \<Longrightarrow> extends_from d w w'"
  by (simp add: extends_from_def new_calls_def)

lemma extends_fromE:
  assumes "extends_from d w w'"
  obtains new where "log w' = log w @ new" "list_all (\<lambda>c. d \<le> depth c) new" "new_calls w w' = new"
proof -
  have "log w' = log w @ new_calls w w'"
    using assms unfolding extends_from_def new_calls_def
    by (metis append_take_drop_id)
  then show ?thesis
    using assms that unfolding extends_from_def by blast
qed

lemma extends_refl [simp]: "extends_from d w w"
  by (rule extends_fromI [where new = "[]"]) simp_all

lemma extends_events [simp]: "extends_from d w (w\<lparr>events := ev\<rparr>)"
  by (rule extends_fromI [where new = "[]"]) simp_all

lemma extends_trans:
  assumes "extends_from d w w1" "extends_from d w1 w2"
  shows "extends_from d w w2"
proof -
  from assms(1) obtain n1 where 1: "log w1 = log w @ n1" "list_all (\<lambda>c. d \<le> depth c) n1"
    by (rule extends_fromE)
  from assms(2) obtain n2 where 2: "log w2 = log w1 @ n2" "list_all (\<lambda>c. d \<le> depth c) n2"
    by (rule extends_fromE)
  show ?thesis
    by (rule extends_fromI [where new = "n1 @ n2"]) (use 1 2 in simp_all)
qed

lemma extends_mono: "extends_from d' w w' \<Longrightarrow> d \<le> d' \<Longrightarrow> extends_from d w w'"
  unfolding extends_from_def by (auto simp: list_all_iff)

lemma extends_record: "d \<le> depth c \<Longrightarrow> extends_from d w (record_call c w)"
  by (rule extends_fromI [where new = "[c]"]) (simp_all add: record_call_def)

lemma calls_at_same [simp]: "calls_at d w w = []"
  by (simp add: calls_at_def new_calls_def)

lemma calls_at_events [simp]: "calls_at d w (w\<lparr>events := ev\<rparr>) = []"
  by (simp add: calls_at_def new_calls_def)

lemma calls_at_trans:
  assumes "extends_from d0 w w1" "extends_from d1 w1 w2"
  shows "calls_at d w w2 = calls_at d w w1 @ calls_at d w1 w2"
proof -
  from assms(1) obtain n1 where 1: "log w1 = log w @ n1" by (rule extends_fromE)
  from assms(2) obtain n2 where 2: "log w2 = log w1 @ n2" by (rule extends_fromE)
  show ?thesis
    using 1 2 by (simp add: calls_at_def new_calls_def)
qed

lemma calls_at_deeper:
  assumes "extends_from d' w w'" "d < d'"
  shows "calls_at d w w' = []"
proof -
  from assms(1) obtain new where "log w' = log w @ new" "list_all (\<lambda>c. d' \<le> depth c) new"
    by (rule extends_fromE)
  then show ?thesis
    using assms(2) by (auto simp: calls_at_def new_calls_def list_all_iff filter_empty_conv)
qed

lemma calls_at_record: "calls_at d w (record_call c w) = (if depth c = d then [c] else [])"
  by (simp add: calls_at_def new_calls_def record_call_def)

lemma once_log [simp]: "log (snd (once e hs w)) = log w"
  by (simp add: once_def Let_def split: prod.splits)

lemma once_extends: "once e hs w = (r, w') \<Longrightarrow> extends_from d w w'"
  by (rule extends_fromI [where new = "[]"]) (use once_log [of e hs w] in simp_all)

lemma trigger_loop_calls:
  assumes "appends invoke"
  shows "trigger_loop invoke d cbs a kw w = Some (r, w') \<Longrightarrow>
     extends_from d w w' \<and>
     (\<exists>k\<le>length cbs. calls_at d w w' = map (sync_entry d a kw) (take k cbs)
        \<and> (r = Inr () \<longrightarrow> k = length cbs))"
proof (induction cbs arbitrary: w)
  case Nil
  then show ?case by auto
next
  case (Cons cb cbs)
  show ?case
  proof (cases "iscoroutinefunction cb")
    case True
    note co = this
    show ?thesis
    proof (cases "length kw > 0 \<or> \<not> loop_running w")
      case True
      with co Cons.prems have "w' = w" "r \<noteq> Inr ()" by (auto split: if_splits)
      then show ?thesis by (auto intro: exI [where x = 0])
    next
      case False
      let ?c = "Call d Executor cb [PTuple a] []"
      from False co Cons.prems have w': "w' = record_call ?c w" and r: "r \<noteq> Inr ()"
        by (auto split: if_splits)
      have e1: "extends_from d w w'" unfolding w' by (rule extends_record) simp
      have "calls_at d w w' = map (sync_entry d a kw) (take (Suc 0) (cb # cbs))"
        using co by (simp add: w' calls_at_record sync_entry_def)
      with e1 r show ?thesis
        by (intro conjI exI [where x = "Suc 0"]) simp_all
    qed
  next
    case False
    let ?c = "Call d Dispatch cb a kw"
    let ?w1 = "record_call ?c w"
    have e1: "extends_from d w ?w1" by (rule extends_record) simp
    from False Cons.prems obtain r1 w2 where inv: "invoke (Suc d) False cb a kw ?w1 = Some (r1, w2)"
      by (auto split: option.splits)
    then have e2: "extends_from (Suc d) ?w1 w2"
      using assms unfolding appends_def by blast
    have c2: "calls_at d w w2 = [sync_entry d a kw cb]"
      using calls_at_trans [OF e1 e2, of d] calls_at_deeper [OF e2, of d] False
      by (simp add: calls_at_record sync_entry_def)
    have e12: "extends_from d w w2"
      by (rule extends_trans [OF e1 extends_mono [OF e2]]) simp
    show ?thesis
    proof (cases r1)
      case (Inl x)
      with False Cons.prems inv have "w' = w2" "r = Inl x" by simp_all
      then show ?thesis
        using c2 e12 by (auto intro!: exI [where x = "Suc 0"])
    next
      case (Inr u)
      with False Cons.prems inv have rest: "trigger_loop invoke d cbs a kw w2 = Some (r, w')"
        by simp
      from Cons.IH [OF rest] obtain k where ext: "extends_from d w2 w'"
        and k: "k \<le> length cbs" "calls_at d w2 w' = map (sync_entry d a kw) (take k cbs)"
          "r = Inr () \<longrightarrow> k = length cbs"
        by blast
      have "calls_at d w w' = map (sync_entry d a kw) (take (Suc k) (cb # cbs))"
        using calls_at_trans [OF e12 ext, of d] c2 k(2) by simp
      moreover have "Suc k \<le> length (cb # cbs)" using k(1) by simp
      moreover have "r = Inr () \<longrightarrow> Suc k = length (cb # cbs)" using k(3) by simp
      ultimately show ?thesis
        using extends_trans [OF e12 ext] by blast
    qed
  qed
qed

lemma trigger_async_loop_calls:
  assumes "appends invoke"
  shows "trigger_async_loop invoke d cbs a kw w = Some (r, w') \<Longrightarrow>
     extends_from d w w' \<and>
     (\<exists>k\<le>length cbs. calls_at d w w' = map (async_entry d a kw) (take k cbs)
        \<and> (r = Inr () \<longrightarrow> k = length cbs))"
proof (induction cbs arbitrary: w)
  case Nil
  then show ?case by auto
next
  case (Cons cb cbs)
  let ?c = "async_entry d a kw cb"
  let ?w1 = "record_call ?c w"
  have e1: "extends_from d w ?w1" by (rule extends_record) (simp add: async_entry_def)
  from Cons.prems obtain r1 w2
    where inv: "invoke (Suc d) (iscoroutinefunction cb) cb a kw ?w1 = Some (r1, w2)"
    by (auto simp: async_entry_def split: option.splits if_splits)
  then have e2: "extends_from (Suc d) ?w1 w2"
    using assms unfolding appends_def by blast
  have c2: "calls_at d w w2 = [?c]"
    using calls_at_trans [OF e1 e2, of d] calls_at_deeper [OF e2, of d]
    by (simp add: calls_at_record async_entry_def)
  have e12: "extends_from d w w2"
    by (rule extends_trans [OF e1 extends_mono [OF e2]]) simp
  show ?case
  proof (cases r1)
    case (Inl x)
    with Cons.prems inv have "w' = w2" "r = Inl x"
      by (auto simp: async_entry_def split: if_splits)
    then show ?thesis
      using c2 e12 by (auto intro!: exI [where x = "Suc 0"])
  next
    case (Inr u)
    with Cons.prems inv have rest: "trigger_async_loop invoke d cbs a kw w2 = Some (r, w')"
      by (auto simp: async_entry_def split: if_splits)
    from Cons.IH [OF rest] obtain k where ext: "extends_from d w2 w'"
      and k: "k \<le> length cbs" "calls_at d w2 w' = map (async_entry d a kw) (take k cbs)"
        "r = Inr () \<longrightarrow> k = length cbs"
      by blast
    have "calls_at d w w' = map (async_entry d a kw) (take (Suc k) (cb # cbs))"
      using calls_at_trans [OF e12 ext, of d] c2 k(2) by simp
    moreover have "Suc k \<le> length (cb # cbs)" using k(1) by simp
    moreover have "r = Inr () \<longrightarrow> Suc k = length (cb # cbs)" using k(3) by simp
    ultimately show ?thesis
      using extends_trans [OF e12 ext] by blast
  qed
qed

lemma trigger_from_extends:
  assumes "appends invoke" "trigger_from invoke d e a kw w = Some (r, w')"
  shows "extends_from d w w'"
  using assms(2) trigger_loop_calls [OF assms(1), of d "get_handlers (events w) e" a kw w]
  by (auto simp: trigger_from_def Let_def split: if_splits option.splits sum.splits)

lemma run_extends:
  assumes "appends invoke"
  shows "run invoke d acts w = Some (r, w') \<Longrightarrow> extends_from d w w'"
proof (induction acts arbitrary: w)
  case Nil
  then show ?case by simp
next
  case (Cons act acts)
  show ?case
  proof (cases act)
    case (DoOn e hs)
    with Cons show ?thesis
      by (auto split: prod.splits sum.splits intro: extends_trans [OF extends_events])
  next
    case (DoOff eo hs)
    with Cons show ?thesis
      by (auto split: prod.splits sum.splits intro: extends_trans [OF extends_events])
  next
    case (DoOnce e hs)
    with Cons show ?thesis
      by (auto split: prod.splits sum.splits intro: extends_trans [OF once_extends] once_extends)
  next
    case (DoTrigger e a kw)
    with Cons show ?thesis
      by (auto split: option.splits prod.splits sum.splits
          intro: extends_trans [OF trigger_from_extends [OF assms]] trigger_from_extends [OF assms])
  next
    case (DoRaise x)
    with Cons show ?thesis by simp
  next
    case (ReturnUnlessRegistered e h)
    with Cons show ?thesis by (auto split: if_splits)
  qed
qed

lemma wrapper_loop_extends:
  assumes "appends invoke"
  shows "wrapper_loop invoke d wr hs a kw w = Some (r, w') \<Longrightarrow> extends_from d w w'"
proof (induction hs arbitrary: w)
  case Nil
  then show ?case by simp
next
  case (Cons h hs)
  let ?w1 = "record_call (Call d (ViaWrapper wr) h a kw) w"
  have e1: "extends_from d w ?w1" by (rule extends_record) simp
  from Cons.prems obtain r1 w2 where inv: "invoke (Suc d) False h a kw ?w1 = Some (r1, w2)"
    by (auto split: option.splits)
  then have "extends_from (Suc d) ?w1 w2"
    using assms unfolding appends_def by blast
  then have e12: "extends_from d w w2"
    using e1 by (blast intro: extends_trans extends_mono le_SucI)
  show ?case
  proof (cases r1)
    case (Inl x)
    with Cons.prems inv show ?thesis using e12 by simp
  next
    case (Inr u)
    with Cons.prems inv have "wrapper_loop invoke d wr hs a kw w2 = Some (r, w')" by simp
    from Cons.IH [OF this] e12 show ?thesis by (rule extends_trans [rotated])
  qed
qed

lemma call_appends: "appends (call n env)"
proof (induction n)
  case 0
  then show ?case by (simp add: appends_def)
next
  case (Suc n)
  show ?case
    unfolding appends_def
  proof (intro allI impI)
    fix d aw h a kw w r w'
    assume c: "call (Suc n) env d aw h a kw w = Some (r, w')"
    show "extends_from d w w'"
    proof (cases h)
      case (Func i)
      with c show ?thesis by (auto intro: run_extends [OF Suc])
    next
      case (Coro i)
      with c show ?thesis by (auto split: if_splits intro: run_extends [OF Suc])
    next
      case (OnceWrapper i e hs)
      with c show ?thesis
        by (auto split: prod.splits sum.splits
            intro: extends_trans [OF extends_events wrapper_loop_extends [OF Suc]])
    qed
  qed
qed

lemma trigger_async_loop_append:
  "trigger_async_loop invoke d (xs @ ys) a kw w =
     (case trigger_async_loop invoke d xs a kw w of
        None \<Rightarrow> None
      | Some (Inl x, w1) \<Rightarrow> Some (Inl x, w1)
      | Some (Inr u, w1) \<Rightarrow> trigger_async_loop invoke d ys a kw w1)"
  by (induction xs arbitrary: w) (auto split: option.splits sum.splits)


lemma trigger_async_calls:
  assumes "trigger_async n env e a kw w = Some (r, w')"
  shows "\<exists>k\<le>length (get_handlers (events w) e).
           calls_at 0 w w' = map (async_entry 0 a kw) (take k (get_handlers (events w) e))
         \<and> (\<forall>b. r = Inr b \<longrightarrow> k = length (get_handlers (events w) e)
                \<and> b = (get_handlers (events w) e \<noteq> []))"
proof (cases "get_handlers (events w) e = []")
  case True
  with assms show ?thesis
    by (auto simp: trigger_async_def trigger_async_from_def)
next
  case False
  with assms obtain r1 where l: "trigger_async_loop (call n env) 0 (get_handlers (events w) e) a kw w = Some (r1, w')"
    and r: "r = (case r1 of Inl x \<Rightarrow> Inl x | Inr u \<Rightarrow> Inr True)"
    by (auto simp: trigger_async_def trigger_async_from_def split: option.splits sum.splits)
  from trigger_async_loop_calls [OF call_appends l] False r show ?thesis
    by (auto split: sum.splits)
qed

lemma callee_sync_entry [simp]: "map (callee \<circ> sync_entry d a kw) xs = xs"
  by (induction xs) (simp_all add: sync_entry_def)

lemma callee_async_entry [simp]: "map (callee \<circ> async_entry d a kw) xs = xs"
  by (induction xs) (simp_all add: async_entry_def)

lemmas eval_defs = trigger_def trigger_from_def trigger_async_def trigger_async_from_def
  get_handlers_def is_registered_def world0_def
  init_def record_call_def on_def on_wrapper_def off_def remove_while_removeAll once_def client_def

subsection \<open>Coroutine functions under \<^verbatim>\<open>trigger\<close>\<close>

text \<open>
  Claim C1 says that \<^verbatim>\<open>trigger\<close> schedules a coroutine function of the snapshot without
  blocking and returns, and that the function receives the positional arguments of the
  call, each as a positional argument of its own. The code does neither. With a running
  event loop it hands the executor the callable and the argument tuple: whatever the
  arguments \<open>a\<close>, the call the executor is asked to make has one positional argument, the
  tuple \<open>PTuple a\<close>, which is never the argument list \<open>a\<close> itself; and the trigger call then
  ends with \<^verbatim>\<open>TypeError\<close>. Without a running event loop nothing is handed over and the
  trigger call ends with \<^verbatim>\<open>RuntimeError\<close>.
\<close>

theorem trigger_hands_coroutine_the_tuple:
  "trigger n env e a [] (w\<lparr>events := (events w)(e \<mapsto> [Coro i])\<rparr>)
     = (if loop_running w
        then Some (Inl TypeError,
               record_call (Call 0 Executor (Coro i) [PTuple a] [])
                 (w\<lparr>events := (events w)(e \<mapsto> [Coro i])\<rparr>))
        else Some (Inl RuntimeError, w\<lparr>events := (events w)(e \<mapsto> [Coro i])\<rparr>))
   \<and> [PTuple a] \<noteq> a"
proof -
  have "size_list size [PTuple a] \<noteq> size_list size a"
    by simp
  then have "[PTuple a] \<noteq> a"
    by metis
  then show ?thesis
    by (simp add: trigger_def trigger_from_def get_handlers_def)
qed

text \<open>
  Claim C4, as stated: a trigger call with a keyword argument and a coroutine function in
  its snapshot fails with the usage error. It fails when an ordinary handler ahead of the
  coroutine function raises: the call ends with that exception, here \<^verbatim>\<open>EventNotFound\<close>
  from an \<^verbatim>\<open>off\<close> inside the handler, and the check is never reached.
\<close>

theorem kw_masked_by_raising_handler_counterexample:
  "trigger (Suc (Suc 0)) env_raiser ''e'' [] [(''k'', PInt 3)] w_raiser
   = Some (Inl (EventNotFound ''gone''),
       record_call (Call 0 Dispatch (Func 0) [] [(''k'', PInt 3)]) w_raiser)"
  by (simp add: eval_defs env_raiser_def w_raiser_def)

text \<open>
  Claim C4, amended: let the trigger call have a keyword argument and its snapshot hold a
  coroutine function \<open>cb\<close>. When the handlers ahead of \<open>cb\<close> have all been dispatched and
  have returned, the call raises \<^verbatim>\<open>SyntaxError\<close> on reaching \<open>cb\<close>, in the world those
  handlers left: \<open>cb\<close> and the handlers after it are not invoked. \<^verbatim>\<open>SyntaxError\<close> is
  neither \<^verbatim>\<open>EventNotFound\<close> nor \<^verbatim>\<open>HandlerNotFound\<close>. When instead a handler ahead of \<open>cb\<close>
  raises, the call fails with that exception, in the world that handler left. In both
  cases, and whatever the handlers ahead do, the call never returns a value.
\<close>

theorem kw_with_coroutine_is_usage_error:
  assumes "kw \<noteq> []"
    and "get_handlers (events w) e = pre @ cb # rest"
    and "iscoroutinefunction cb"
  shows "(trigger_loop (call n env) 0 pre a kw w = Some (Inr (), w1) \<longrightarrow>
            trigger n env e a kw w
              = Some (Inl (SyntaxError ''named args are not supported by asyncio in synchronous mode''), w1))
       \<and> (trigger_loop (call n env) 0 pre a kw w = Some (Inl y, w2) \<longrightarrow>
            trigger n env e a kw w = Some (Inl y, w2))
       \<and> SyntaxError m \<noteq> EventNotFound x \<and> SyntaxError m \<noteq> HandlerNotFound x h
       \<and> (\<forall>b w'. trigger n env e a kw w \<noteq> Some (Inr b, w'))"
proof -
  have "trigger_loop (call n env) 0 (pre @ cb # rest) a kw w \<noteq> Some (Inr (), w')" for w'
    by (rule trigger_loop_kw_coroutine [OF assms(1) _ assms(3)]) simp
  then have "trigger n env e a kw w \<noteq> Some (Inr b, w')" for b w'
    using assms(2) by (auto simp: trigger_def trigger_from_def split: option.splits sum.splits)
  moreover have "trigger_loop (call n env) 0 pre a kw w = Some (Inr (), w1) \<longrightarrow>
            trigger n env e a kw w
              = Some (Inl (SyntaxError ''named args are not supported by asyncio in synchronous mode''), w1)"
    using assms by (simp add: trigger_def trigger_from_def trigger_loop_append)
  moreover have "trigger_loop (call n env) 0 pre a kw w = Some (Inl y, w2) \<longrightarrow>
            trigger n env e a kw w = Some (Inl y, w2)"
    using assms by (simp add: trigger_def trigger_from_def trigger_loop_append)
  ultimately show ?thesis by simp
qed

theorem kw_with_coroutine_is_usage_error_witness:
  "[(''k'', PInt 3)] \<noteq> []
   \<and> get_handlers (events (world0\<lparr>events := Map.empty(''e'' \<mapsto> [Func 0, Coro 1, Func 2])\<rparr>)) ''e''
       = [Func 0] @ Coro 1 # [Func 2]
   \<and> iscoroutinefunction (Coro 1)
   \<and> trigger_loop (call (Suc (Suc 0)) (\<lambda>h. [])) 0 [Func 0] [PInt 1] [(''k'', PInt 3)]
        (world0\<lparr>events := Map.empty(''e'' \<mapsto> [Func 0, Coro 1, Func 2])\<rparr>)
       = Some (Inr (), record_call (Call 0 Dispatch (Func 0) [PInt 1] [(''k'', PInt 3)])
           (world0\<lparr>events := Map.empty(''e'' \<mapsto> [Func 0, Coro 1, Func 2])\<rparr>))
   \<and> trigger (Suc (Suc 0)) (\<lambda>h. []) ''e'' [PInt 1] [(''k'', PInt 3)]
       (world0\<lparr>events := Map.empty(''e'' \<mapsto> [Func 0, Coro 1, Func 2])\<rparr>)
     = Some (Inl (SyntaxError ''named args are not supported by asyncio in synchronous mode''),
         record_call (Call 0 Dispatch (Func 0) [PInt 1] [(''k'', PInt 3)])
           (world0\<lparr>events := Map.empty(''e'' \<mapsto> [Func 0, Coro 1, Func 2])\<rparr>))
   \<and> get_handlers (events w_raiser) ''e'' = [Func 0] @ Coro 1 # []
   \<and> trigger_loop (call (Suc (Suc 0)) env_raiser) 0 [Func 0] [] [(''k'', PInt 3)] w_raiser
       = Some (Inl (EventNotFound ''gone''),
           record_call (Call 0 Dispatch (Func 0) [] [(''k'', PInt 3)]) w_raiser)
   \<and> trigger (Suc (Suc 0)) env_raiser ''e'' [] [(''k'', PInt 3)] w_raiser
       = Some (Inl (EventNotFound ''gone''),
           record_call (Call 0 Dispatch (Func 0) [] [(''k'', PInt 3)]) w_raiser)"
proof -
  let ?w = "world0\<lparr>events := Map.empty(''e'' \<mapsto> [Func 0, Coro 1, Func 2])\<rparr>"
  let ?w1 = "record_call (Call 0 Dispatch (Func 0) [PInt 1] [(''k'', PInt 3)]) ?w"
  let ?w2 = "record_call (Call 0 Dispatch (Func 0) [] [(''k'', PInt 3)]) w_raiser"
  have kw: "[(''k'', PInt 3)] \<noteq> []" by simp
  have snap: "get_handlers (events ?w) ''e'' = [Func 0] @ Coro 1 # [Func 2]"
    by (simp add: get_handlers_def)
  have co: "iscoroutinefunction (Coro 1)" by simp
  have pre: "trigger_loop (call (Suc (Suc 0)) (\<lambda>h. [])) 0 [Func 0] [PInt 1] [(''k'', PInt 3)] ?w
      = Some (Inr (), ?w1)"
    by simp
  from kw_with_coroutine_is_usage_error [OF kw snap co, of "Suc (Suc 0)" "\<lambda>h. []" "[PInt 1]" ?w1] pre
  have 1: "trigger (Suc (Suc 0)) (\<lambda>h. []) ''e'' [PInt 1] [(''k'', PInt 3)] ?w
     = Some (Inl (SyntaxError ''named args are not supported by asyncio in synchronous mode''), ?w1)"
    by blast
  have snap2: "get_handlers (events w_raiser) ''e'' = [Func 0] @ Coro 1 # []"
    by (simp add: get_handlers_def w_raiser_def)
  have pre2: "trigger_loop (call (Suc (Suc 0)) env_raiser) 0 [Func 0] [] [(''k'', PInt 3)] w_raiser
      = Some (Inl (EventNotFound ''gone''), ?w2)"
    by (simp add: eval_defs env_raiser_def w_raiser_def)
  have t: "trigger_loop (call (Suc (Suc 0)) env_raiser) 0 [Func 0] [] [(''k'', PInt 3)] w_raiser
             = Some (Inl (EventNotFound ''gone''), ?w2) \<longrightarrow>
           trigger (Suc (Suc 0)) env_raiser ''e'' [] [(''k'', PInt 3)] w_raiser
             = Some (Inl (EventNotFound ''gone''), ?w2)"
    using kw_with_coroutine_is_usage_error [OF kw snap2 co, where n = "Suc (Suc 0)" and env = env_raiser
        and a = "[]" and y = "EventNotFound ''gone''" and ?w2.0 = ?w2]
    by blast
  with pre2 have 2: "trigger (Suc (Suc 0)) env_raiser ''e'' [] [(''k'', PInt 3)] w_raiser
             = Some (Inl (EventNotFound ''gone''), ?w2)"
    by blast
  from kw snap co pre 1 snap2 pre2 2 show ?thesis by blast
qed

subsection \<open>The snapshot\<close>










subsection \<open>\<^verbatim>\<open>trigger_async\<close>\<close>

lemma on_returns: "\<exists>r ev'. on e hs ev = (Inr r, ev')"
  by (cases hs) (simp_all add: on_def on_wrapper_def)

lemma once_returns: "\<exists>r w'. once e hs w = (Inr r, w')"
  using on_returns [of e "[OnceWrapper (fresh w) e hs]" "events w"]
  by (auto simp: once_def Let_def)

lemma run_harmless:
  "list_all harmless acts \<Longrightarrow> \<exists>w'. run invoke d acts w = Some (Inr (), w')"
proof (induction acts arbitrary: w)
  case Nil
  then show ?case by simp
next
  case (Cons act acts)
  then have IH: "\<exists>w'. run invoke d acts u = Some (Inr (), w')" for u by simp
  show ?case
  proof (cases act)
    case (DoOn e hs)
    obtain r ev' where "on e hs (events w) = (Inr r, ev')" using on_returns by blast
    with DoOn IH [of "w\<lparr>events := ev'\<rparr>"] show ?thesis by simp
  next
    case (DoOnce e hs)
    obtain r w1 where "once e hs w = (Inr r, w1)" using once_returns by blast
    with DoOnce IH [of w1] show ?thesis by simp
  next
    case (ReturnUnlessRegistered e h)
    with IH [of w] show ?thesis by simp
  qed (use Cons.prems in simp_all)
qed

lemma call_simple:
  assumes "is_function cb" "list_all harmless (env cb)"
  shows "\<exists>w'. call (Suc n) env d (iscoroutinefunction cb) cb a kw w = Some (Inr (), w')"
  using assms run_harmless [of "env cb" "call n env" d w]
  by (cases cb) simp_all

lemma trigger_async_loop_simple:
  "simple_handlers env cbs \<Longrightarrow>
     \<exists>w'. trigger_async_loop (call (Suc n) env) d cbs a kw w = Some (Inr (), w')"
proof (induction cbs arbitrary: w)
  case Nil
  then show ?case by simp
next
  case (Cons cb cbs)
  then have f: "is_function cb" "list_all harmless (env cb)" and rest: "simple_handlers env cbs"
    by (simp_all add: simple_handlers_def)
  let ?w1 = "record_call (async_entry d a kw cb) w"
  from call_simple [where env = env and cb = cb, OF f, of n "Suc d" a kw ?w1] obtain w2
    where c: "call (Suc n) env (Suc d) (iscoroutinefunction cb) cb a kw ?w1 = Some (Inr (), w2)"
    by blast
  from Cons.IH [OF rest, of w2] obtain w' where
    "trigger_async_loop (call (Suc n) env) d cbs a kw w2 = Some (Inr (), w')" by blast
  with c show ?case
    by (cases "iscoroutinefunction cb") (simp_all add: async_entry_def)
qed

lemma trigger_async_simple:
  assumes "simple_handlers env (get_handlers (events w) e)"
  shows "\<exists>w'. trigger_async (Suc n) env e a kw w = Some (Inr (get_handlers (events w) e \<noteq> []), w')"
proof (cases "get_handlers (events w) e = []")
  case True
  then show ?thesis by (simp add: trigger_async_def trigger_async_from_def)
next
  case False
  from trigger_async_loop_simple [OF assms, of n 0 a kw w] obtain w' where
    "trigger_async_loop (call (Suc n) env) 0 (get_handlers (events w) e) a kw w = Some (Inr (), w')"
    by blast
  with False show ?thesis by (simp add: trigger_async_def trigger_async_from_def)
qed

lemma trigger_async_sequential:
  assumes "trigger_async n env e a kw w = Some (r, w')"
  shows "(\<exists>k\<le>length (get_handlers (events w) e).
            calls_at 0 w w' = map (async_entry 0 a kw) (take k (get_handlers (events w) e))
          \<and> (\<forall>b. r = Inr b \<longrightarrow> k = length (get_handlers (events w) e)
                 \<and> b = (get_handlers (events w) e \<noteq> [])))
       \<and> (\<forall>pre cb post. r = Inr True \<longrightarrow> get_handlers (events w) e = pre @ cb # post \<longrightarrow>
            (\<exists>w1 w2. trigger_async_loop (call n env) 0 pre a kw w = Some (Inr (), w1)
               \<and> call n env (Suc 0) (iscoroutinefunction cb) cb a kw
                    (record_call (async_entry 0 a kw cb) w1) = Some (Inr (), w2)
               \<and> trigger_async_loop (call n env) 0 post a kw w2 = Some (Inr (), w')))"
proof (intro conjI allI impI)
  show "\<exists>k\<le>length (get_handlers (events w) e).
            calls_at 0 w w' = map (async_entry 0 a kw) (take k (get_handlers (events w) e))
          \<and> (\<forall>b. r = Inr b \<longrightarrow> k = length (get_handlers (events w) e)
                 \<and> b = (get_handlers (events w) e \<noteq> []))"
    by (rule trigger_async_calls [OF assms])
next
  fix pre cb post
  assume r: "r = Inr True" and snap: "get_handlers (events w) e = pre @ cb # post"
  from assms r snap have "trigger_async_loop (call n env) 0 (pre @ cb # post) a kw w = Some (Inr (), w')"
    by (auto simp: trigger_async_def trigger_async_from_def split: option.splits sum.splits)
  then show "\<exists>w1 w2. trigger_async_loop (call n env) 0 pre a kw w = Some (Inr (), w1)
               \<and> call n env (Suc 0) (iscoroutinefunction cb) cb a kw
                    (record_call (async_entry 0 a kw cb) w1) = Some (Inr (), w2)
               \<and> trigger_async_loop (call n env) 0 post a kw w2 = Some (Inr (), w')"
    by (auto simp: trigger_async_loop_append async_entry_def split: option.splits sum.splits if_splits)
qed

text \<open>
  Claim C8: a call of \<^verbatim>\<open>trigger_async\<close> invokes the handlers of the snapshot in order,
  with the arguments of the call, a coroutine function awaited and any other handler called;
  when the call returns, it has invoked all of them and its value is \<open>True\<close> exactly when
  the snapshot was not empty. Each handler \<open>cb\<close> of the snapshot starts in the world left by
  the handlers ahead of it, and the handlers after it start in the world \<open>cb\<close> left when it
  returned. And the call does return, with that value, when the handlers of the snapshot
  are functions whose bodies only register handlers or return early.
\<close>

theorem trigger_async_in_order:
  "(trigger_async n env e a kw w = Some (r, w') \<longrightarrow>
      (\<exists>k\<le>length (get_handlers (events w) e).
            calls_at 0 w w' = map (async_entry 0 a kw) (take k (get_handlers (events w) e))
          \<and> (\<forall>b. r = Inr b \<longrightarrow> k = length (get_handlers (events w) e)
                 \<and> b = (get_handlers (events w) e \<noteq> [])))
       \<and> (\<forall>pre cb post. r = Inr True \<longrightarrow> get_handlers (events w) e = pre @ cb # post \<longrightarrow>
            (\<exists>w1 w2. trigger_async_loop (call n env) 0 pre a kw w = Some (Inr (), w1)
               \<and> call n env (Suc 0) (iscoroutinefunction cb) cb a kw
                    (record_call (async_entry 0 a kw cb) w1) = Some (Inr (), w2)
               \<and> trigger_async_loop (call n env) 0 post a kw w2 = Some (Inr (), w'))))
   \<and> (simple_handlers env (get_handlers (events w) e) \<longrightarrow>
        (\<exists>u. trigger_async (Suc m) env e a kw w = Some (Inr (get_handlers (events w) e \<noteq> []), u)))"
  using trigger_async_sequential [of n env e a kw w r w'] trigger_async_simple [of env w e m a kw]
  by blast

theorem trigger_async_in_order_witness:
  "simple_handlers env_mixed (get_handlers (events w_mixed) ''e'')
   \<and> (\<exists>w'. trigger_async (Suc (Suc 0)) env_mixed ''e'' [PInt 1] [(''k'', PInt 2)] w_mixed = Some (Inr True, w')
     \<and> calls_at 0 w_mixed w'
         = [Call 0 Await (Coro 1) [PInt 1] [(''k'', PInt 2)],
            Call 0 Dispatch (Func 2) [PInt 1] [(''k'', PInt 2)],
            Call 0 Await (Coro 3) [PInt 1] [(''k'', PInt 2)]]
     \<and> get_handlers (events w') ''x'' = [Func 9])"
proof -
  have s: "get_handlers (events w_mixed) ''e'' = [Coro 1, Func 2, Coro 3]"
    by (simp add: get_handlers_def w_mixed_def)
  have simple: "simple_handlers env_mixed (get_handlers (events w_mixed) ''e'')"
    unfolding s by (simp add: simple_handlers_def env_mixed_def)
  note t = trigger_async_in_order [of _ env_mixed "''e''" "[PInt 1]" "[(''k'', PInt 2)]" w_mixed]
  from t [of 0 "Inr True" w_mixed "Suc 0"] simple
  obtain w' where run: "trigger_async (Suc (Suc 0)) env_mixed ''e'' [PInt 1] [(''k'', PInt 2)] w_mixed
      = Some (Inr True, w')"
    unfolding s by auto
  have "trigger_async (Suc (Suc 0)) env_mixed ''e'' [PInt 1] [(''k'', PInt 2)] w_mixed
      = Some (Inr True, w') \<longrightarrow> get_handlers (events w') ''x'' = [Func 9]"
    by (auto simp: eval_defs env_mixed_def w_mixed_def)
  with run have x: "get_handlers (events w') ''x'' = [Func 9]" by blast
  from t [of "Suc (Suc 0)" "Inr True" w' 0] run
  have "calls_at 0 w_mixed w'
         = [Call 0 Await (Coro 1) [PInt 1] [(''k'', PInt 2)],
            Call 0 Dispatch (Func 2) [PInt 1] [(''k'', PInt 2)],
            Call 0 Await (Coro 3) [PInt 1] [(''k'', PInt 2)]]"
    unfolding s by (auto simp: async_entry_def)
  with run x simple show ?thesis by blast
qed

section \<open>Handlers registered with \<^verbatim>\<open>once\<close>\<close>

lemma log_prefixE:
  assumes "take (length (log w)) (log w') = log w"
  obtains new where "log w' = log w @ new" "new_calls w w' = new"
proof -
  have "log w' = log w @ drop (length (log w)) (log w')"
    using assms by (metis append_take_drop_id)
  then show ?thesis
    using that [of "drop (length (log w)) (log w')"] by (simp add: new_calls_def)
qed

lemma via_wrapper_trans:
  assumes "take (length (log w)) (log w1) = log w" "take (length (log w1)) (log w2) = log w1"
  shows "via_wrapper wr w w2 = via_wrapper wr w w1 @ via_wrapper wr w1 w2
       \<and> take (length (log w)) (log w2) = log w"
proof -
  from assms(1) obtain n1 where 1: "log w1 = log w @ n1" "new_calls w w1 = n1"
    by (rule log_prefixE)
  from assms(2) obtain n2 where 2: "log w2 = log w1 @ n2" "new_calls w1 w2 = n2"
    by (rule log_prefixE)
  have 3: "log w2 = log w @ (n1 @ n2)"
    by (simp add: 1(1) 2(1))
  have "new_calls w w2 = n1 @ n2"
    unfolding new_calls_def 3 by simp
  then have "via_wrapper wr w w2 = via_wrapper wr w w1 @ via_wrapper wr w1 w2"
    by (simp add: via_wrapper_def 1(2) 2(2))
  moreover have "take (length (log w)) (log w2) = log w"
    unfolding 3 by simp
  ultimately show ?thesis by simp
qed

lemma once_step_quiet:
  assumes "fresh w \<le> fresh w'" "take (length (log w)) (log w') = log w"
    and "via_wrapper (OnceWrapper i e hs) w w' = []"
    and "is_registered (events w') e (OnceWrapper i e hs) \<longrightarrow> is_registered (events w) e (OnceWrapper i e hs)"
  shows "once_step i e hs w w'"
proof -
  have "\<exists>k\<le>length hs. via_wrapper (OnceWrapper i e hs) w w' = take k hs"
    using assms(3) by (intro exI [where x = 0]) simp
  with assms show ?thesis
    unfolding once_step_def by blast
qed

lemma once_step_refl [simp]: "once_step i e hs w w"
  by (rule once_step_quiet) (simp_all add: via_wrapper_def new_calls_def)

lemma once_step_trans:
  assumes "once_step i e hs w w1" "once_step i e hs w1 w2"
  shows "once_step i e hs w w2"
proof -
  let ?wr = "OnceWrapper i e hs"
  have p1: "take (length (log w)) (log w1) = log w" and p2: "take (length (log w1)) (log w2) = log w1"
    using assms by (simp_all add: once_step_def)
  have v: "via_wrapper ?wr w w2 = via_wrapper ?wr w w1 @ via_wrapper ?wr w1 w2"
    "take (length (log w)) (log w2) = log w"
    using via_wrapper_trans [OF p1 p2, of ?wr] by simp_all
  from assms(1) obtain k1 where k1: "k1 \<le> length hs" "via_wrapper ?wr w w1 = take k1 hs"
    unfolding once_step_def by blast
  from assms(2) obtain k2 where k2: "k2 \<le> length hs" "via_wrapper ?wr w1 w2 = take k2 hs"
    unfolding once_step_def by blast
  have B1: "is_registered (events w1) e ?wr \<Longrightarrow> is_registered (events w) e ?wr \<and> via_wrapper ?wr w w1 = []"
    and C1: "\<not> is_registered (events w) e ?wr \<Longrightarrow> via_wrapper ?wr w w1 = []"
    and B2: "is_registered (events w2) e ?wr \<Longrightarrow> is_registered (events w1) e ?wr \<and> via_wrapper ?wr w1 w2 = []"
    and C2: "\<not> is_registered (events w1) e ?wr \<Longrightarrow> via_wrapper ?wr w1 w2 = []"
    using assms unfolding once_step_def by blast+
  have A: "\<exists>k\<le>length hs. via_wrapper ?wr w w2 = take k hs"
  proof (cases "via_wrapper ?wr w1 w2 = []")
    case True
    then show ?thesis using k1 v(1) by auto
  next
    case False
    then have "is_registered (events w1) e ?wr" using C2 by blast
    then have "via_wrapper ?wr w w1 = []" using B1 by blast
    then show ?thesis using k2 v(1) by auto
  qed
  have B: "is_registered (events w2) e ?wr \<longrightarrow> is_registered (events w) e ?wr \<and> via_wrapper ?wr w w2 = []"
    using B1 B2 v(1) by auto
  have C: "\<not> is_registered (events w) e ?wr \<longrightarrow> via_wrapper ?wr w w2 = []"
    using B1 C1 C2 v(1) by auto
  have "fresh w \<le> fresh w2"
    using assms unfolding once_step_def by linarith
  with A B C v(2) show ?thesis
    unfolding once_step_def by blast
qed

lemma once_step_events:
  assumes "is_registered ev' e (OnceWrapper i e hs) \<longrightarrow> is_registered (events w) e (OnceWrapper i e hs)"
  shows "once_step i e hs w (w\<lparr>events := ev'\<rparr>)"
  by (rule once_step_quiet) (use assms in \<open>simp_all add: via_wrapper_def new_calls_def\<close>)

lemma once_step_record:
  assumes "site c \<noteq> ViaWrapper (OnceWrapper i e hs)"
  shows "once_step i e hs w (record_call c w)"
  by (rule once_step_quiet) (use assms in \<open>simp_all add: via_wrapper_def new_calls_def record_call_def\<close>)

lemma off_loop_only_removes:
  "set (get_handlers (snd (off_loop e' hs' ev)) e) \<subseteq> set (get_handlers ev e)"
proof (induction hs' arbitrary: ev)
  case Nil
  then show ?case by simp
next
  case (Cons h hs')
  let ?ev1 = "ev(e' \<mapsto> remove_while h (get_handlers ev e'))"
  have 1: "set (get_handlers ?ev1 e) \<subseteq> set (get_handlers ev e)"
    by (auto simp: get_handlers_def remove_while_removeAll)
  have 2: "set (get_handlers (snd (off_loop e' hs' ?ev1)) e) \<subseteq> set (get_handlers ?ev1 e)"
    by (rule Cons.IH)
  show ?case
  proof (cases "h \<in> set (get_handlers ev e')")
    case True
    then have eq: "off_loop e' (h # hs') ev = off_loop e' hs' ?ev1" by simp
    show ?thesis unfolding eq by (rule subset_trans [OF 2 1])
  next
    case False
    then show ?thesis by simp
  qed
qed

lemma off_only_removes:
  assumes "is_registered (snd (off eo hs' ev)) e h"
  shows "is_registered ev e h"
proof (cases eo)
  case None
  with assms show ?thesis by (simp add: off_def is_registered_def)
next
  case (Some e')
  show ?thesis
  proof (cases "e' = []")
    case True
    with Some assms show ?thesis by (simp add: off_def is_registered_def)
  next
    case ne: False
    show ?thesis
    proof (cases "ev e' = None")
      case True
      with Some ne assms show ?thesis by (simp add: off_def)
    next
      case key: False
      show ?thesis
      proof (cases "hs' = []")
        case True
        with Some ne key assms have "is_registered (ev(e' := None)) e h"
          by (auto simp: off_def)
        then show ?thesis
          by (cases "e = e'") (simp_all add: is_registered_def)
      next
        case False
        have "off eo hs' ev = off_loop e' hs' ev"
          by (simp add: off_def Some ne key False)
        with assms have "h \<in> set (get_handlers (snd (off_loop e' hs' ev)) e)"
          by (simp add: is_registered_def get_handlers_def)
        with off_loop_only_removes [of e' hs' ev e] have "h \<in> set (get_handlers ev e)"
          by blast
        then show ?thesis by (simp add: is_registered_def get_handlers_def)
      qed
    qed
  qed
qed

lemma on_keeps:
  assumes "wr \<notin> set hs'"
  shows "is_registered (snd (on e' hs' ev)) e wr = is_registered ev e wr"
proof (cases hs')
  case Nil
  then show ?thesis by (simp add: on_def)
next
  case (Cons h t)
  then have "snd (on e' hs' ev) = ev(e' \<mapsto> get_handlers ev e' @ hs')"
    by (simp add: on_def on_wrapper_def)
  then show ?thesis
    using assms by (cases "e = e'") (simp_all add: is_registered_def get_handlers_def)
qed

lemma once_step_once:
  assumes "i < fresh w"
  shows "once_step i e hs w (snd (once e' hs' w))"
proof (cases "hs' = []")
  case True
  then show ?thesis by (simp add: once_def)
next
  case False
  let ?nw = "OnceWrapper (fresh w) e' hs'"
  have ne: "OnceWrapper i e hs \<notin> set [?nw]" using assms by auto
  have "snd (once e' hs' w) = w\<lparr>fresh := Suc (fresh w), events := snd (on e' [?nw] (events w))\<rparr>"
    using False by (simp add: once_def Let_def split: prod.splits)
  moreover have "is_registered (snd (on e' [?nw] (events w))) e (OnceWrapper i e hs)
      = is_registered (events w) e (OnceWrapper i e hs)"
    by (rule on_keeps [OF ne])
  ultimately show ?thesis
    by (intro once_step_quiet) (simp_all add: via_wrapper_def new_calls_def)
qed

lemma once_step_fresh: "once_step i e hs w w' \<Longrightarrow> i < fresh w \<Longrightarrow> i < fresh w'"
  by (simp add: once_step_def)

lemma once_safeD:
  "once_safe i e hs invoke \<Longrightarrow> i < fresh w \<Longrightarrow> invoke d aw h a kw w = Some (r, w') \<Longrightarrow> once_step i e hs w w'"
  unfolding once_safe_def by blast

lemma trigger_loop_safe:
  assumes "once_safe i e hs invoke"
  shows "i < fresh w \<Longrightarrow> trigger_loop invoke d cbs a kw w = Some (r, w') \<Longrightarrow> once_step i e hs w w'"
proof (induction cbs arbitrary: w)
  case Nil
  then show ?case by simp
next
  case (Cons cb cbs)
  show ?case
  proof (cases "iscoroutinefunction cb")
    case co: True
    show ?thesis
    proof (cases "length kw > 0 \<or> \<not> loop_running w")
      case True
      with co Cons.prems have "w' = w" by (auto split: if_splits)
      then show ?thesis by simp
    next
      case False
      with co Cons.prems have "w' = record_call (Call d Executor cb [PTuple a] []) w"
        by (auto split: if_splits)
      then show ?thesis by (simp add: once_step_record)
    qed
  next
    case False
    let ?w1 = "record_call (Call d Dispatch cb a kw) w"
    have s1: "once_step i e hs w ?w1" by (rule once_step_record) simp
    from False Cons.prems obtain r1 w2 where inv: "invoke (Suc d) False cb a kw ?w1 = Some (r1, w2)"
      by (auto split: option.splits)
    have s2: "once_step i e hs ?w1 w2"
      by (rule once_safeD [OF assms _ inv]) (use Cons.prems(1) in simp)
    have s12: "once_step i e hs w w2" by (rule once_step_trans [OF s1 s2])
    show ?thesis
    proof (cases r1)
      case (Inl x)
      with False Cons.prems inv s12 show ?thesis by simp
    next
      case (Inr u)
      with False Cons.prems inv have "trigger_loop invoke d cbs a kw w2 = Some (r, w')" by simp
      from Cons.IH [OF once_step_fresh [OF s12 Cons.prems(1)] this] s12 show ?thesis
        by (rule once_step_trans [rotated])
    qed
  qed
qed

lemma trigger_from_safe:
  assumes "once_safe i e hs invoke" "i < fresh w" "trigger_from invoke d ev a kw w = Some (r, w')"
  shows "once_step i e hs w w'"
proof (cases "get_handlers (events w) ev = []")
  case True
  with assms(3) show ?thesis by (simp add: trigger_from_def)
next
  case False
  with assms(3) obtain r1 where "trigger_loop invoke d (get_handlers (events w) ev) a kw w = Some (r1, w')"
    by (auto simp: trigger_from_def split: option.splits sum.splits)
  from trigger_loop_safe [OF assms(1,2) this] show ?thesis .
qed

lemma run_safe:
  assumes "once_safe i e hs invoke"
  shows "never_registers (OnceWrapper i e hs) acts \<Longrightarrow> i < fresh w \<Longrightarrow>
           run invoke d acts w = Some (r, w') \<Longrightarrow> once_step i e hs w w'"
proof (induction acts arbitrary: w)
  case Nil
  then show ?case by simp
next
  case (Cons act acts)
  from Cons.prems(1) have nr: "never_registers (OnceWrapper i e hs) acts" and na: "\<not> registers (OnceWrapper i e hs) act"
    by (simp_all add: never_registers_def)
  note IH = Cons.IH [OF nr]
  show ?case
  proof (cases act)
    case (DoOn e' hs')
    obtain x ev' where on: "on e' hs' (events w) = (x, ev')" by (cases "on e' hs' (events w)")
    let ?w1 = "w\<lparr>events := ev'\<rparr>"
    have "is_registered ev' e (OnceWrapper i e hs) = is_registered (events w) e (OnceWrapper i e hs)"
      using on_keeps [of "OnceWrapper i e hs" hs' e' "events w" e] na DoOn on by simp
    then have s1: "once_step i e hs w ?w1" by (intro once_step_events) simp
    show ?thesis
    proof (cases x)
      case (Inl y)
      with DoOn on Cons.prems(3) s1 show ?thesis by simp
    next
      case (Inr y)
      with DoOn on Cons.prems(3) have "run invoke d acts ?w1 = Some (r, w')" by simp
      from IH [OF _ this] Cons.prems(2) have "once_step i e hs ?w1 w'" by simp
      with s1 show ?thesis by (rule once_step_trans)
    qed
  next
    case (DoOff eo hs')
    obtain x ev' where off: "off eo hs' (events w) = (x, ev')" by (cases "off eo hs' (events w)")
    let ?w1 = "w\<lparr>events := ev'\<rparr>"
    have "is_registered ev' e (OnceWrapper i e hs) \<longrightarrow> is_registered (events w) e (OnceWrapper i e hs)"
      using off_only_removes [of eo hs' "events w" e "OnceWrapper i e hs"] off by simp
    then have s1: "once_step i e hs w ?w1" by (rule once_step_events)
    show ?thesis
    proof (cases x)
      case (Inl y)
      with DoOff off Cons.prems(3) s1 show ?thesis by simp
    next
      case (Inr y)
      with DoOff off Cons.prems(3) have "run invoke d acts ?w1 = Some (r, w')" by simp
      from IH [OF _ this] Cons.prems(2) have "once_step i e hs ?w1 w'" by simp
      with s1 show ?thesis by (rule once_step_trans)
    qed
  next
    case (DoOnce e' hs')
    obtain x w1 where once: "once e' hs' w = (x, w1)" by (cases "once e' hs' w")
    have s1: "once_step i e hs w w1"
      using once_step_once [OF Cons.prems(2), of e hs e' hs'] once by simp
    show ?thesis
    proof (cases x)
      case (Inl y)
      with DoOnce once Cons.prems(3) s1 show ?thesis by simp
    next
      case (Inr y)
      with DoOnce once Cons.prems(3) have "run invoke d acts w1 = Some (r, w')" by simp
      from IH [OF once_step_fresh [OF s1 Cons.prems(2)] this] s1 show ?thesis
        by (rule once_step_trans [rotated])
    qed
  next
    case (DoTrigger ev a kw)
    from DoTrigger Cons.prems(3) obtain x w1 where tr: "trigger_from invoke d ev a kw w = Some (x, w1)"
      by (auto split: option.splits)
    have s1: "once_step i e hs w w1"
      by (rule trigger_from_safe [OF assms Cons.prems(2) tr])
    show ?thesis
    proof (cases x)
      case (Inl y)
      with DoTrigger tr Cons.prems(3) s1 show ?thesis by simp
    next
      case (Inr y)
      with DoTrigger tr Cons.prems(3) have "run invoke d acts w1 = Some (r, w')" by simp
      from IH [OF once_step_fresh [OF s1 Cons.prems(2)] this] s1 show ?thesis
        by (rule once_step_trans [rotated])
    qed
  next
    case (DoRaise x)
    with Cons.prems(3) show ?thesis by simp
  next
    case (ReturnUnlessRegistered e' h)
    show ?thesis
    proof (cases "is_registered (events w) e' h")
      case True
      with ReturnUnlessRegistered Cons.prems(3) have "run invoke d acts w = Some (r, w')" by simp
      from IH [OF Cons.prems(2) this] show ?thesis .
    next
      case False
      with ReturnUnlessRegistered Cons.prems(3) show ?thesis by simp
    qed
  qed
qed

lemma wrapper_loop_other:
  assumes "once_safe i e hs invoke" "wr' \<noteq> OnceWrapper i e hs"
  shows "i < fresh w \<Longrightarrow> wrapper_loop invoke d wr' hs' a kw w = Some (r, w') \<Longrightarrow> once_step i e hs w w'"
proof (induction hs' arbitrary: w)
  case Nil
  then show ?case by simp
next
  case (Cons h hs')
  let ?w1 = "record_call (Call d (ViaWrapper wr') h a kw) w"
  have s1: "once_step i e hs w ?w1" by (rule once_step_record) (use assms(2) in simp)
  from Cons.prems obtain r1 w2 where inv: "invoke (Suc d) False h a kw ?w1 = Some (r1, w2)"
    by (auto split: option.splits)
  have s2: "once_step i e hs ?w1 w2"
    by (rule once_safeD [OF assms(1) _ inv]) (use Cons.prems(1) in simp)
  have s12: "once_step i e hs w w2" by (rule once_step_trans [OF s1 s2])
  show ?case
  proof (cases r1)
    case (Inl x)
    with Cons.prems inv s12 show ?thesis by simp
  next
    case (Inr u)
    with Cons.prems inv have "wrapper_loop invoke d wr' hs' a kw w2 = Some (r, w')" by simp
    from Cons.IH [OF once_step_fresh [OF s12 Cons.prems(1)] this] s12 show ?thesis
      by (rule once_step_trans [rotated])
  qed
qed

lemma via_wrapper_record:
  "via_wrapper wr w (record_call c w) = (if site c = ViaWrapper wr then [callee c] else [])"
  by (simp add: via_wrapper_def new_calls_def record_call_def)

lemma log_prefix_record: "take (length (log w)) (log (record_call c w)) = log w"
  by (simp add: record_call_def)

lemma once_step_unarmed:
  assumes "once_step i e hs w w'" "\<not> is_registered (events w) e (OnceWrapper i e hs)"
  shows "\<not> is_registered (events w') e (OnceWrapper i e hs)"
    "via_wrapper (OnceWrapper i e hs) w w' = []"
  using assms unfolding once_step_def by blast+

lemma wrapper_loop_self:
  assumes "once_safe i e hs invoke"
  shows "i < fresh w \<Longrightarrow> \<not> is_registered (events w) e (OnceWrapper i e hs) \<Longrightarrow>
     wrapper_loop invoke d (OnceWrapper i e hs) hs0 a kw w = Some (r, w') \<Longrightarrow>
     fresh w \<le> fresh w' \<and> take (length (log w)) (log w') = log w
     \<and> \<not> is_registered (events w') e (OnceWrapper i e hs)
     \<and> (\<exists>k\<le>length hs0. via_wrapper (OnceWrapper i e hs) w w' = take k hs0 \<and> (hs0 \<noteq> [] \<longrightarrow> 0 < k))"
proof (induction hs0 arbitrary: w)
  case Nil
  then show ?case by (simp add: via_wrapper_def new_calls_def)
next
  case (Cons h hs0)
  let ?wr = "OnceWrapper i e hs"
  let ?w1 = "record_call (Call d (ViaWrapper ?wr) h a kw) w"
  from Cons.prems obtain r1 w2 where inv: "invoke (Suc d) False h a kw ?w1 = Some (r1, w2)"
    by (auto split: option.splits)
  have s2: "once_step i e hs ?w1 w2"
    by (rule once_safeD [OF assms _ inv]) (use Cons.prems(1) in simp)
  have un1: "\<not> is_registered (events ?w1) e ?wr" using Cons.prems(2) by simp
  note u2 = once_step_unarmed [OF s2 un1]
  have p12: "take (length (log ?w1)) (log w2) = log ?w1" and f12: "fresh w \<le> fresh w2"
    using s2 by (simp_all add: once_step_def)
  have v02: "via_wrapper ?wr w w2 = [h]" and p02: "take (length (log w)) (log w2) = log w"
    using via_wrapper_trans [OF log_prefix_record p12, of ?wr] u2(2)
    by (simp_all add: via_wrapper_record)
  show ?case
  proof (cases r1)
    case (Inl x)
    with Cons.prems inv have "w' = w2" by simp
    moreover have "\<exists>k\<le>length (h # hs0). [h] = take k (h # hs0) \<and> (h # hs0 \<noteq> [] \<longrightarrow> 0 < k)"
      by (intro exI [where x = "Suc 0"]) simp
    ultimately show ?thesis
      using v02 p02 f12 u2(1) by simp
  next
    case (Inr u)
    with Cons.prems inv have rest: "wrapper_loop invoke d ?wr hs0 a kw w2 = Some (r, w')" by simp
    have "i < fresh w2" using f12 Cons.prems(1) by simp
    from Cons.IH [OF this u2(1) rest] obtain k where
      f: "fresh w2 \<le> fresh w'" and p: "take (length (log w2)) (log w') = log w2"
      and un: "\<not> is_registered (events w') e ?wr"
      and k: "k \<le> length hs0" "via_wrapper ?wr w2 w' = take k hs0"
      by blast
    have "via_wrapper ?wr w w' = take (Suc k) (h # hs0)" and "take (length (log w)) (log w') = log w"
      using via_wrapper_trans [OF p02 p, of ?wr] v02 k(2) by simp_all
    moreover have "Suc k \<le> length (h # hs0)" using k(1) by simp
    moreover have "fresh w \<le> fresh w'" using f f12 by simp
    ultimately show ?thesis
      using un by (intro conjI exI [where x = "Suc k"]) simp_all
  qed
qed

lemma off_self:
  assumes "e \<noteq> []"
  shows "(case off (Some e) [wr] ev of
            (Inl x, ev') \<Rightarrow> ev' = ev
          | (Inr u, ev') \<Rightarrow> is_registered ev e wr \<and> \<not> is_registered ev' e wr)"
  using assms
  by (auto simp: off_def is_registered_def get_handlers_def remove_while_removeAll split: option.splits)

lemma call_self:
  assumes safe: "once_safe i e hs (call n env)" and ne: "e \<noteq> []" and fr: "i < fresh w"
    and c: "call (Suc n) env d aw (OnceWrapper i e hs) a kw w = Some (r, w')"
  shows "once_step i e hs w w'
       \<and> (is_registered (events w) e (OnceWrapper i e hs) \<longrightarrow>
             \<not> is_registered (events w') e (OnceWrapper i e hs)
           \<and> (\<exists>k\<le>length hs. via_wrapper (OnceWrapper i e hs) w w' = take k hs \<and> (hs \<noteq> [] \<longrightarrow> 0 < k)))"
proof -
  let ?wr = "OnceWrapper i e hs"
  obtain x ev' where off: "off (Some e) [?wr] (events w) = (x, ev')"
    by (cases "off (Some e) [?wr] (events w)")
  show ?thesis
  proof (cases x)
    case (Inl y)
    with off off_self [OF ne, of "events w" ?wr] have ev: "ev' = events w" by simp
    with Inl off c have w': "w' = w" by simp
    from Inl off have "\<not> is_registered (events w) e ?wr"
      using ne by (auto simp: off_def is_registered_def get_handlers_def split: option.splits if_splits)
    with w' show ?thesis by simp
  next
    case (Inr u)
    let ?w0 = "w\<lparr>events := ev'\<rparr>"
    from Inr off off_self [OF ne, of "events w" ?wr]
    have armed: "is_registered (events w) e ?wr" and un0: "\<not> is_registered (events ?w0) e ?wr"
      by simp_all
    from Inr off c have loop: "wrapper_loop (call n env) d ?wr hs a kw ?w0 = Some (r, w')" by simp
    have fr0: "i < fresh ?w0" using fr by simp
    from wrapper_loop_self [OF safe fr0 un0 loop] obtain k where
      f: "fresh w \<le> fresh w'" and p: "take (length (log w)) (log w') = log w"
      and un: "\<not> is_registered (events w') e ?wr"
      and k: "k \<le> length hs" "via_wrapper ?wr ?w0 w' = take k hs" "hs \<noteq> [] \<longrightarrow> 0 < k"
      by auto
    have v: "via_wrapper ?wr w w' = take k hs"
      using k(2) by (simp add: via_wrapper_def new_calls_def)
    have "once_step i e hs w w'"
      unfolding once_step_def using f p un armed v k(1) by blast
    with armed un v k show ?thesis by blast
  qed
qed

lemma call_safe:
  assumes ne: "e \<noteq> []" and env: "\<And>h. never_registers (OnceWrapper i e hs) (env h)"
  shows "once_safe i e hs (call n env)"
proof (induction n)
  case 0
  then show ?case by (simp add: once_safe_def)
next
  case (Suc n)
  show ?case
    unfolding once_safe_def
  proof (intro allI impI)
    fix d aw h a kw w r w'
    assume fr: "i < fresh w" and c: "call (Suc n) env d aw h a kw w = Some (r, w')"
    show "once_step i e hs w w'"
    proof (cases "h = OnceWrapper i e hs")
      case True
      with call_self [OF Suc ne fr] c show ?thesis by blast
    next
      case other: False
      show ?thesis
      proof (cases h)
        case (Func j)
        with c have "run (call n env) d (env h) w = Some (r, w')" by simp
        from run_safe [OF Suc env fr this] show ?thesis .
      next
        case (Coro j)
        show ?thesis
        proof (cases aw)
          case True
          with Coro c have "run (call n env) d (env h) w = Some (r, w')" by simp
          from run_safe [OF Suc env fr this] show ?thesis .
        next
          case False
          with Coro c show ?thesis by simp
        qed
      next
        case (OnceWrapper i' e' hs')
        obtain x ev' where off: "off (Some e') [h] (events w) = (x, ev')"
          by (cases "off (Some e') [h] (events w)")
        let ?w0 = "w\<lparr>events := ev'\<rparr>"
        have "is_registered ev' e (OnceWrapper i e hs) \<longrightarrow> is_registered (events w) e (OnceWrapper i e hs)"
          using off_only_removes [of "Some e'" "[h]" "events w" e "OnceWrapper i e hs"] off by simp
        then have s1: "once_step i e hs w ?w0" by (rule once_step_events)
        show ?thesis
        proof (cases x)
          case (Inl y)
          with OnceWrapper off c s1 show ?thesis by simp
        next
          case (Inr u)
          with OnceWrapper off c have "wrapper_loop (call n env) d h hs' a kw ?w0 = Some (r, w')"
            by simp
          from wrapper_loop_other [OF Suc other _ this] fr have "once_step i e hs ?w0 w'" by simp
          with s1 show ?thesis by (rule once_step_trans)
        qed
      qed
    qed
  qed
qed

lemma sessions_safe:
  assumes "once_safe i e hs (call n env)"
  shows "list_all (never_registers (OnceWrapper i e hs)) progs \<Longrightarrow> i < fresh w \<Longrightarrow>
     sessions n env progs w = Some w' \<Longrightarrow> once_step i e hs w w'"
proof (induction progs arbitrary: w)
  case Nil
  then show ?case by simp
next
  case (Cons p ps)
  from Cons.prems(3) obtain r w1 where c: "client n env p w = Some (r, w1)"
    and rest: "sessions n env ps w1 = Some w'"
    by (auto split: option.splits)
  from c have "run (call n env) 0 p w = Some (r, w1)" by (simp add: client_def)
  from run_safe [OF assms _ Cons.prems(2) this] Cons.prems(1) have s1: "once_step i e hs w w1" by simp
  from Cons.IH [OF _ once_step_fresh [OF s1 Cons.prems(2)] rest] Cons.prems(1)
  have "once_step i e hs w1 w'" by simp
  with s1 show ?case by (rule once_step_trans)
qed

lemma count_list_take_le: "count_list (take k xs) x \<le> count_list xs x"
proof (induction xs arbitrary: k)
  case Nil
  then show ?case by simp
next
  case (Cons y ys)
  show ?case
    using Cons [of "k - 1"] by (cases k) (auto intro: le_SucI)
qed

lemma first_trigger_fires:
  assumes safe: "\<And>m. once_safe i e [h] (call m env)" and ne: "e \<noteq> []" and fr: "i < fresh w"
    and snap: "get_handlers (events w) e = [OnceWrapper i e [h]]"
    and c: "client n env [DoTrigger e a kw] w = Some (r, w')"
  shows "via_wrapper (OnceWrapper i e [h]) w w' = [h]
       \<and> \<not> is_registered (events w') e (OnceWrapper i e [h])
       \<and> fresh w \<le> fresh w' \<and> take (length (log w)) (log w') = log w"
proof -
  let ?wr = "OnceWrapper i e [h]"
  let ?w1 = "record_call (Call 0 Dispatch ?wr a kw) w"
  from c snap obtain r1 where inv: "call n env (Suc 0) False ?wr a kw ?w1 = Some (r1, w')"
    by (auto simp: client_def trigger_from_def split: option.splits sum.splits)
  then obtain m where n: "n = Suc m" by (cases n) simp_all
  have armed: "is_registered (events ?w1) e ?wr"
    using snap by (simp add: is_registered_def get_handlers_def)
  have fr1: "i < fresh ?w1" using fr by simp
  from call_self [OF safe ne fr1 inv [unfolded n]] armed obtain k where
    st: "once_step i e [h] ?w1 w'" and un: "\<not> is_registered (events w') e ?wr"
    and k: "k \<le> length [h]" "via_wrapper ?wr ?w1 w' = take k [h]" "0 < k"
    by auto
  from k have v1: "via_wrapper ?wr ?w1 w' = [h]" by (cases k) simp_all
  have p1: "take (length (log ?w1)) (log w') = log ?w1" and f: "fresh w \<le> fresh w'"
    using st by (simp_all add: once_step_def)
  from via_wrapper_trans [OF log_prefix_record p1, of ?wr] v1
  have "via_wrapper ?wr w w' = [h]" "take (length (log w)) (log w') = log w"
    by (simp_all add: via_wrapper_record)
  with un f show ?thesis by simp
qed

text \<open>
  For a non-empty event name \<open>e\<close> the wrapper does what its docstring says. Let \<^verbatim>\<open>once\<close>
  register the handlers \<open>hs\<close> for \<open>e\<close>, and let no handler body and no later call of the
  client pass the wrapper to \<^verbatim>\<open>on\<close> again. Then over any later sequences of calls, nested
  triggers included, the wrapper invokes an initial part of \<open>hs\<close> and nothing more, so each
  handler at most as often as it was given to \<^verbatim>\<open>once\<close>. With a single handler \<open>h\<close> and no
  handler registered for \<open>e\<close> before, triggering \<open>e\<close> twice invokes \<open>h\<close> exactly once. The
  wrapper's \<^verbatim>\<open>off\<close> either raises and leaves the registry as it was, or leaves the wrapper
  unregistered for \<open>e\<close> before any wrapped handler runs.
\<close>

lemma once_wrapper_at_most_once:
  assumes "e \<noteq> []" and "hs \<noteq> []"
    and "\<And>h'. never_registers (OnceWrapper (fresh w) e hs) (env h')"
    and "once e hs w = (r0, w1)"
  shows "(list_all (never_registers (OnceWrapper (fresh w) e hs)) progs \<and> sessions n env progs w1 = Some w'
            \<longrightarrow> (\<exists>k\<le>length hs. via_wrapper (OnceWrapper (fresh w) e hs) w1 w' = take k hs)
                \<and> count_list (via_wrapper (OnceWrapper (fresh w) e hs) w1 w') h' \<le> count_list hs h')
       \<and> (hs = [h] \<and> get_handlers (events w) e = []
            \<and> sessions n env [[DoTrigger e a kw], [DoTrigger e a' kw']] w1 = Some w'
            \<longrightarrow> via_wrapper (OnceWrapper (fresh w) e hs) w1 w' = [h])
       \<and> (case off (Some e) [OnceWrapper (fresh w) e hs] ev of
             (Inl x, ev') \<Rightarrow> ev' = ev
           | (Inr u, ev') \<Rightarrow> \<not> is_registered ev' e (OnceWrapper (fresh w) e hs))"
proof -
  let ?i = "fresh w"
  let ?wr = "OnceWrapper ?i e hs"
  have safe: "once_safe ?i e hs (call m env)" for m
    by (rule call_safe [OF assms(1,3)])
  have w1: "w1 = w\<lparr>fresh := Suc ?i, events := snd (on e [?wr] (events w))\<rparr>"
    using assms(2,4) by (auto simp: once_def Let_def split: prod.splits)
  then have fr: "?i < fresh w1" by simp
  have A: "(\<exists>k\<le>length hs. via_wrapper ?wr w1 w' = take k hs)
         \<and> count_list (via_wrapper ?wr w1 w') h' \<le> count_list hs h'"
    if "list_all (never_registers ?wr) progs" "sessions n env progs w1 = Some w'"
  proof -
    from sessions_safe [OF safe that(1) fr that(2)] obtain k
      where "k \<le> length hs" "via_wrapper ?wr w1 w' = take k hs"
      unfolding once_step_def by blast
    then show ?thesis by (auto simp: count_list_take_le)
  qed
  have B: "via_wrapper ?wr w1 w' = [h]"
    if hs: "hs = [h]" and empty: "get_handlers (events w) e = []"
      and run: "sessions n env [[DoTrigger e a kw], [DoTrigger e a' kw']] w1 = Some w'"
  proof -
    from run obtain r1 w2 r2 where c1: "client n env [DoTrigger e a kw] w1 = Some (r1, w2)"
      and c2: "client n env [DoTrigger e a' kw'] w2 = Some (r2, w')"
      by (auto split: option.splits)
    have snap: "get_handlers (events w1) e = [OnceWrapper ?i e [h]]"
      using empty hs by (simp add: w1 on_def on_wrapper_def get_handlers_def)
    from first_trigger_fires [OF safe [unfolded hs] assms(1) fr snap c1]
    have v1: "via_wrapper ?wr w1 w2 = [h]" and un: "\<not> is_registered (events w2) e ?wr"
      and f: "fresh w1 \<le> fresh w2" and p1: "take (length (log w1)) (log w2) = log w1"
      by (simp_all add: hs)
    have fr2: "?i < fresh w2" using fr f by simp
    from c2 have "run (call n env) 0 [DoTrigger e a' kw'] w2 = Some (r2, w')" by (simp add: client_def)
    from run_safe [OF safe _ fr2 this] have st: "once_step ?i e hs w2 w'"
      by (simp add: never_registers_def)
    from once_step_unarmed(2) [OF st un] have v2: "via_wrapper ?wr w2 w' = []" .
    have p2: "take (length (log w2)) (log w') = log w2" using st by (simp add: once_step_def)
    from via_wrapper_trans [OF p1 p2, of ?wr] v1 v2 show ?thesis by simp
  qed
  have C: "(case off (Some e) [?wr] ev of
             (Inl x, ev') \<Rightarrow> ev' = ev
           | (Inr u, ev') \<Rightarrow> \<not> is_registered ev' e ?wr)"
    using off_self [OF assms(1), of ev ?wr] by (auto split: prod.splits sum.splits)
  from A B C show ?thesis by blast
qed

lemma once_wrapper_at_most_once_example:
  "''e'' \<noteq> [] \<and> (\<forall>h'. never_registers (OnceWrapper 0 ''e'' [Func 2]) (env_reenter h'))
   \<and> (\<exists>w1 w'. once ''e'' [Func 2] world0 = (Inr (Registered (OnceWrapper 0 ''e'' [Func 2])), w1)
        \<and> sessions (Suc (Suc (Suc 0))) env_reenter [[DoTrigger ''e'' [] []], [DoTrigger ''e'' [] []]] w1
            = Some w'
        \<and> list_all (never_registers (OnceWrapper 0 ''e'' [Func 2]))
              [[DoTrigger ''e'' [] []], [DoTrigger ''e'' [] []]]
        \<and> get_handlers (events world0) ''e'' = []
        \<and> via_wrapper (OnceWrapper 0 ''e'' [Func 2]) w1 w' = [Func 2]
        \<and> count_list (via_wrapper (OnceWrapper 0 ''e'' [Func 2]) w1 w') (Func 2) \<le> count_list [Func 2] (Func 2))"
proof -
  have ne: "''e'' \<noteq> []" and hs: "[Func 2] \<noteq> []" by simp_all
  have env: "never_registers (OnceWrapper (fresh world0) ''e'' [Func 2]) (env_reenter h')" for h'
    by (simp add: never_registers_def env_reenter_def)
  define w1 where "w1 = \<lparr>events = Map.empty(''e'' \<mapsto> [OnceWrapper 0 ''e'' [Func 2]]), fresh = Suc 0, log = [], loop_running = False\<rparr>"
  have o: "once ''e'' [Func 2] world0 = (Inr (Registered (OnceWrapper 0 ''e'' [Func 2])), w1)"
    by (simp add: eval_defs Let_def w1_def)
  note w1 = w1_def
  obtain w' where run: "sessions (Suc (Suc (Suc 0))) env_reenter
      [[DoTrigger ''e'' [] []], [DoTrigger ''e'' [] []]] w1 = Some w'"
    unfolding w1 by (simp add: eval_defs env_reenter_def Let_def)
  have g: "get_handlers (events world0) ''e'' = []"
    by (simp add: get_handlers_def world0_def init_def)
  have f0: "fresh world0 = 0" by (simp add: world0_def)
  have nr: "list_all (never_registers (OnceWrapper 0 ''e'' [Func 2]))
      [[DoTrigger ''e'' [] []], [DoTrigger ''e'' [] []]]"
    by (simp add: never_registers_def)
  note t = once_wrapper_at_most_once [where env = env_reenter, OF ne hs env o, unfolded f0]
  from t run g have v: "via_wrapper (OnceWrapper 0 ''e'' [Func 2]) w1 w' = [Func 2]"
    by blast
  from t nr run
  have c: "count_list (via_wrapper (OnceWrapper 0 ''e'' [Func 2]) w1 w') (Func 2) \<le> count_list [Func 2] (Func 2)"
    by blast
  have "\<exists>w1 w'. once ''e'' [Func 2] world0 = (Inr (Registered (OnceWrapper 0 ''e'' [Func 2])), w1)
        \<and> sessions (Suc (Suc (Suc 0))) env_reenter [[DoTrigger ''e'' [] []], [DoTrigger ''e'' [] []]] w1
            = Some w'
        \<and> list_all (never_registers (OnceWrapper 0 ''e'' [Func 2]))
              [[DoTrigger ''e'' [] []], [DoTrigger ''e'' [] []]]
        \<and> get_handlers (events world0) ''e'' = []
        \<and> via_wrapper (OnceWrapper 0 ''e'' [Func 2]) w1 w' = [Func 2]
        \<and> count_list (via_wrapper (OnceWrapper 0 ''e'' [Func 2]) w1 w') (Func 2) \<le> count_list [Func 2] (Func 2)"
    using o run nr g v c by blast
  with env ne show ?thesis
    unfolding f0 by blast
qed

text \<open>
  Claim C5 says that a handler registered with \<^verbatim>\<open>once\<close> is invoked at most once per
  registration, whatever trigger calls follow. For the empty event name the code breaks
  it: the wrapper's \<^verbatim>\<open>self.off(event, _wrapper)\<close> takes the clear-all branch of \<^verbatim>\<open>off\<close>,
  which never raises \<^verbatim>\<open>HandlerNotFound\<close>. Here a handler ahead of the wrapper triggers the
  event again, both trigger calls hold the wrapper in their snapshot, and the one wrapper,
  registered once, invokes \<open>Func 2\<close> twice.
\<close>

theorem once_on_empty_name_invokes_twice:
  "client (Suc (Suc (Suc (Suc 0)))) env_retrigger prog_retrigger world0 = Some (Inr (), w_retrigger)
   \<and> via_wrapper (OnceWrapper 0 [] [Func 2]) world0 w_retrigger = [Func 2, Func 2]"
  by (simp add: eval_defs env_retrigger_def prog_retrigger_def w_retrigger_def via_wrapper_def
      new_calls_def Let_def)

end
